theory Spec2Isabelle
  imports
    Main
    "HOL-Library.Word"
    "HOL-Library.Multiset"
    "HOL-Library.Char_ord"
    "HOL-Library.List_Lexorder"
begin

unbundle bit_operations_syntax

section \<open>The routing verifier of the Koorde web cache (test/verify\_routing.py)\<close>

text \<open>
  The script recomputes which node of the ring owns a key and compares it with the owner
  the live cache reports in its \<open>X-Node-ID\<close> header. This theory embeds its functions
  one by one. Python's unbounded integers are \<open>int\<close>; a Python \<open>str\<close> is represented
  by the bytes of its UTF-8 encoding, an Isabelle \<open>string\<close> (the node names, the URLs and
  the hexadecimal identifiers of the script are all ASCII, where a character is one byte);
  a \<open>bytes\<close> or \<open>bytearray\<close> value is a list of 8-bit words. An exception that leaves a
  function is the \<open>Inl\<close> branch of its result.
\<close>

subsection \<open>Exceptions\<close>

text \<open>
  \<open>IndexError\<close>, \<open>ValueError\<close> and \<open>TypeError\<close> are the built-in exceptions the script can
  raise. \<open>ConfigurationError\<close> is the error class the specification names; the script
  does not define it and no function below returns it.
\<close>

datatype py_error = IndexError | ValueError | TypeError | ConfigurationError

subsection \<open>Module configuration and \<open>load_config\<close>\<close>

text \<open>The three module-level globals \<open>NUM_NODES\<close>, \<open>ID_BITS\<close> and \<open>BYTE_LEN\<close>.\<close>

record config =
  NUM_NODES :: int
  ID_BITS :: int
  BYTE_LEN :: int

definition default_config :: config where
  "default_config = \<lparr>NUM_NODES = 8, ID_BITS = 66, BYTE_LEN = (66 + 7) div 8\<rparr>"

text \<open>
  What \<open>load_config\<close> finds on disk. \<open>Absent\<close>: \<open>cfg_path.exists()\<close> is false.
  \<open>LoadFails\<close>: opening or \<open>json.load\<close> raises, which the \<open>except Exception\<close> clause
  catches. \<open>Loaded n b\<close>: \<open>json.load\<close> returned \<open>cfg\<close>; \<open>n\<close> describes the key
  \<open>"NUM_NODES"\<close> and \<open>b\<close> the key \<open>"ID_BITS"\<close>: not in \<open>cfg\<close>, in \<open>cfg\<close> with
  \<open>int(cfg[key])\<close> evaluating to an integer, or an exception raised by the membership
  test, the lookup or the conversion (none of them is inside the \<open>try\<close>).
\<close>

datatype cfg_field = NotInCfg | IntOf int | Raises py_error

datatype cfg_file = Absent | LoadFails | Loaded cfg_field cfg_field

definition load_config :: "cfg_file \<Rightarrow> config \<Rightarrow> py_error + config" where
  "load_config f c =
     (case f of
        Absent \<Rightarrow> Inr c
      | LoadFails \<Rightarrow> Inr c
      | Loaded n b \<Rightarrow>
          (case n of
             Raises e \<Rightarrow> Inl e
           | _ \<Rightarrow>
               (let c1 = (case n of IntOf v \<Rightarrow> c\<lparr>NUM_NODES := v\<rparr> | _ \<Rightarrow> c)
                in case b of
                     Raises e \<Rightarrow> Inl e
                   | _ \<Rightarrow>
                       (let c2 = (case b of IntOf v \<Rightarrow> c1\<lparr>ID_BITS := v\<rparr> | _ \<Rightarrow> c1)
                        in Inr (c2\<lparr>BYTE_LEN := (ID_BITS c2 + 7) div 8\<rparr>)))))"

subsection \<open>\<open>hashlib.sha1\<close>\<close>

text \<open>
  SHA-1 as in FIPS 180-4, on bytes: padding to a multiple of 64 bytes, sixteen big-endian
  32-bit words per block expanded to eighty, eighty rounds per block, and the five state
  words written out big-endian.
\<close>

type_synonym byte = "8 word"
type_synonym u32 = "32 word"

definition sha1_f :: "nat \<Rightarrow> u32 \<Rightarrow> u32 \<Rightarrow> u32 \<Rightarrow> u32" where
  "sha1_f t b c d =
     (if t < 20 then (b AND c) OR (NOT b AND d)
      else if t < 40 then b XOR c XOR d
      else if t < 60 then (b AND c) OR (b AND d) OR (c AND d)
      else b XOR c XOR d)"

definition sha1_k :: "nat \<Rightarrow> u32" where
  "sha1_k t =
     (if t < 20 then 0x5A827999
      else if t < 40 then 0x6ED9EBA1
      else if t < 60 then 0x8F1BBCDC
      else 0xCA62C1D6)"

definition be_word :: "byte list \<Rightarrow> u32" where
  "be_word bs = foldl (\<lambda>acc b. push_bit 8 acc OR ucast b) 0 bs"

definition word_bytes :: "u32 \<Rightarrow> byte list" where
  "word_bytes w = [ucast (drop_bit 24 w), ucast (drop_bit 16 w), ucast (drop_bit 8 w), ucast w]"

fun chunks :: "nat \<Rightarrow> nat \<Rightarrow> 'a list \<Rightarrow> 'a list list" where
  "chunks 0 k xs = []"
| "chunks (Suc n) k xs = take k xs # chunks n k (drop k xs)"

fun sha1_expand :: "nat \<Rightarrow> u32 list \<Rightarrow> u32 list" where
  "sha1_expand 0 ws = ws"
| "sha1_expand (Suc n) ws =
     (let l = length ws
      in sha1_expand n
           (ws @ [word_rotl 1 (ws ! (l - 3) XOR ws ! (l - 8) XOR ws ! (l - 14) XOR ws ! (l - 16))]))"

type_synonym sha1_state = "u32 \<times> u32 \<times> u32 \<times> u32 \<times> u32"

definition sha1_round :: "nat \<times> u32 \<Rightarrow> sha1_state \<Rightarrow> sha1_state" where
  "sha1_round tw s =
     (case s of (a, b, c, d, e) \<Rightarrow>
        (word_rotl 5 a + sha1_f (fst tw) b c d + e + sha1_k (fst tw) + snd tw,
         a, word_rotl 30 b, c, d))"

definition sha1_block :: "sha1_state \<Rightarrow> byte list \<Rightarrow> sha1_state" where
  "sha1_block h blk =
     (let ws = sha1_expand 64 (map be_word (chunks 16 4 blk));
          r = fold sha1_round (zip [0..<80] ws) h
      in case (h, r) of ((h0, h1, h2, h3, h4), (a, b, c, d, e)) \<Rightarrow>
           (h0 + a, h1 + b, h2 + c, h3 + d, h4 + e))"

definition sha1_pad :: "byte list \<Rightarrow> byte list" where
  "sha1_pad m =
     (let n = (of_nat (8 * length m) :: 64 word)
      in m @ [0x80] @ replicate ((119 - length m mod 64) mod 64) 0
           @ map (\<lambda>i. ucast (drop_bit (8 * (7 - i)) n)) [0..<8])"

definition sha1 :: "byte list \<Rightarrow> byte list" where
  "sha1 m =
     (let p = sha1_pad m;
          h = foldl sha1_block (0x67452301, 0xEFCDAB89, 0x98BADCFE, 0x10325476, 0xC3D2E1F0)
                (chunks (length p div 64) 64 p)
      in case h of (h0, h1, h2, h3, h4) \<Rightarrow>
           word_bytes h0 @ word_bytes h1 @ word_bytes h2 @ word_bytes h3 @ word_bytes h4)"

subsection \<open>Strings, hexadecimal text and slices\<close>

text \<open>\<open>s.encode('utf-8')\<close>: the string already is its UTF-8 byte sequence.\<close>

definition encode_utf8 :: "string \<Rightarrow> byte list" where
  "encode_utf8 s = map of_char s"

text \<open>\<open>bytearray.hex()\<close>: two lowercase digits per byte, high nibble first.\<close>

definition hex_digit :: "nat \<Rightarrow> char" where
  "hex_digit n = ''0123456789abcdef'' ! n"

definition hex_byte :: "byte \<Rightarrow> string" where
  "hex_byte b = [hex_digit (unat b div 16), hex_digit (unat b mod 16)]"

definition bytes_hex :: "byte list \<Rightarrow> string" where
  "bytes_hex bs = concat (map hex_byte bs)"

text \<open>
  \<open>int(s, 16)\<close> on a string of hexadecimal digits of either case, and \<open>ValueError\<close> on the
  empty string and on any other character. Python's \<open>int\<close> accepts further forms
  (surrounding whitespace, a sign, a \<open>0x\<close> prefix, single underscores between digits);
  the script applies it only to results of \<open>hex()\<close>, and every statement below that
  depends on a successful conversion is about strings of hexadecimal digits.
\<close>

definition digit_value :: "char \<Rightarrow> nat option" where
  "digit_value c =
     (let n = (of_char c :: nat)
      in if 48 \<le> n \<and> n \<le> 57 then Some (n - 48)
         else if 97 \<le> n \<and> n \<le> 102 then Some (n - 87)
         else if 65 \<le> n \<and> n \<le> 70 then Some (n - 55)
         else None)"

fun hex_acc :: "nat \<Rightarrow> string \<Rightarrow> nat option" where
  "hex_acc acc [] = Some acc"
| "hex_acc acc (c # cs) =
     (case digit_value c of None \<Rightarrow> None | Some d \<Rightarrow> hex_acc (16 * acc + d) cs)"

definition py_int16 :: "string \<Rightarrow> py_error + int" where
  "py_int16 s =
     (if s = [] then Inl ValueError
      else case hex_acc 0 s of None \<Rightarrow> Inl ValueError | Some v \<Rightarrow> Inr (int v))"

text \<open>
  The slice \<open>h[:n]\<close>: the first \<open>n\<close> elements, and for a negative \<open>n\<close> all but the last
  \<open>-n\<close>; out-of-range bounds are clamped, never an error.
\<close>

definition slice_to :: "int \<Rightarrow> 'a list \<Rightarrow> 'a list" where
  "slice_to n xs = (if 0 \<le> n then take (nat n) xs else take (length xs - nat (- n)) xs)"

text \<open>The decimal rendering of \<open>i\<close> in the f-string \<open>f"koorde-node-{i}"\<close>.\<close>

function str_nat :: "nat \<Rightarrow> string" where
  "str_nat n = (if n < 10 then [char_of (48 + n)] else str_nat (n div 10) @ [char_of (48 + n mod 10)])"
  by pat_completeness auto
termination
  by (relation "measure id") auto

definition node_name :: "nat \<Rightarrow> string" where
  "node_name i = ''koorde-node-'' @ str_nat i"

subsection \<open>\<open>get_id_from_string\<close>\<close>

text \<open>
  The digest is cut to \<open>BYTE_LEN\<close> bytes; when \<open>extra_bits > 0\<close> the first byte is masked
  with \<open>0xFF >> extra_bits\<close>, and \<open>buf[0]\<close> raises \<open>IndexError\<close> when the slice is empty.
\<close>

definition get_id_from_string :: "config \<Rightarrow> string \<Rightarrow> py_error + string" where
  "get_id_from_string c s =
     (let h = sha1 (encode_utf8 s);
          buf = slice_to (BYTE_LEN c) h;
          extra_bits = BYTE_LEN c * 8 - ID_BITS c
      in if extra_bits > 0 then
           (case buf of
              [] \<Rightarrow> Inl IndexError
            | b # bs \<Rightarrow> Inr (bytes_hex ((b AND drop_bit (nat extra_bits) 0xFF) # bs)))
         else Inr (bytes_hex buf))"

subsection \<open>\<open>get_node_ids\<close>\<close>

text \<open>
  The loop over \<open>range(NUM_NODES)\<close> appends to \<open>ids\<close>; \<open>sorted(ids)\<close> orders the strings
  lexicographically by character code, which is the order of \<open>string\<close> here.
\<close>

fun node_ids_loop :: "config \<Rightarrow> nat list \<Rightarrow> string list \<Rightarrow> py_error + string list" where
  "node_ids_loop c [] ids = Inr ids"
| "node_ids_loop c (i # rest) ids =
     (case get_id_from_string c (node_name i) of
        Inl e \<Rightarrow> Inl e
      | Inr hex_id \<Rightarrow> node_ids_loop c rest (ids @ [hex_id]))"

definition get_node_ids :: "config \<Rightarrow> py_error + string list" where
  "get_node_ids c =
     (case node_ids_loop c [0..<nat (NUM_NODES c)] [] of
        Inl e \<Rightarrow> Inl e
      | Inr ids \<Rightarrow> Inr (sort ids))"

subsection \<open>\<open>get_responsible_node\<close>\<close>

text \<open>
  \<open>successor_scan\<close> is the \<open>for\<close> loop: \<open>Inr (Some n)\<close> when it returns \<open>n\<close>,
  \<open>Inr None\<close> when it runs to the end. After the loop \<open>node_ids[0]\<close> raises
  \<open>IndexError\<close> on an empty ring.
\<close>

fun successor_scan :: "int \<Rightarrow> string list \<Rightarrow> py_error + string option" where
  "successor_scan key_int [] = Inr None"
| "successor_scan key_int (node_hex # rest) =
     (case py_int16 node_hex of
        Inl e \<Rightarrow> Inl e
      | Inr node_int \<Rightarrow>
          if node_int \<ge> key_int then Inr (Some node_hex) else successor_scan key_int rest)"

definition get_responsible_node :: "string \<Rightarrow> string list \<Rightarrow> py_error + string" where
  "get_responsible_node key_hex node_ids =
     (case py_int16 key_hex of
        Inl e \<Rightarrow> Inl e
      | Inr key_int \<Rightarrow>
          (case successor_scan key_int node_ids of
             Inl e \<Rightarrow> Inl e
           | Inr (Some node_hex) \<Rightarrow> Inr node_hex
           | Inr None \<Rightarrow>
               (case node_ids of [] \<Rightarrow> Inl IndexError | first # _ \<Rightarrow> Inr first)))"

subsection \<open>\<open>test_routing\<close>\<close>

text \<open>\<open>str.replace("0x", "")\<close>: every occurrence, left to right, without overlap.\<close>

fun replace_0x :: "string \<Rightarrow> string" where
  "replace_0x (c # d # r) =
     (if c = CHR ''0'' \<and> d = CHR ''x'' then replace_0x r else c # replace_0x (d # r))"
| "replace_0x r = r"

text \<open>\<open>str.zfill(width)\<close>: zeros go after a leading sign; a long string is unchanged.\<close>

definition zfill :: "int \<Rightarrow> string \<Rightarrow> string" where
  "zfill width s =
     (if width \<le> int (length s) then s
      else
        (let pad = replicate (nat width - length s) (CHR ''0'')
         in case s of
              [] \<Rightarrow> pad
            | c # r \<Rightarrow> if c = CHR ''+'' \<or> c = CHR ''-'' then c # pad @ r else pad @ s))"

text \<open>
  What \<open>requests.get\<close> does for one URL: it raises, or it returns a response with a
  status code and, possibly, an \<open>X-Node-ID\<close> header.
\<close>

datatype response = RequestException | Response int "string option"

text \<open>The verdict printed for a URL, one of the four messages of the loop body.\<close>

datatype outcome = MATCH | MISMATCH | FailedStatus int | RequestFailed

record tally =
  match_count :: int
  total_count :: int
  printed :: "(string \<times> outcome) list"

text \<open>
  The \<open>try\<close> block of the loop body, for one URL and its expected node. The calls of
  \<open>print\<close> are taken to succeed; what they report is kept in \<open>printed\<close>.
\<close>

definition compare_response :: "config \<Rightarrow> string \<Rightarrow> string \<Rightarrow> response \<Rightarrow> tally \<Rightarrow> tally" where
  "compare_response c url expected_node r t =
     (case r of
        RequestException \<Rightarrow> t\<lparr>printed := printed t @ [(url, RequestFailed)]\<rparr>
      | Response status_code header \<Rightarrow>
          if status_code \<noteq> 200 then t\<lparr>printed := printed t @ [(url, FailedStatus status_code)]\<rparr>
          else
            (let actual_node = replace_0x (case header of None \<Rightarrow> [] | Some v \<Rightarrow> v);
                 actual_node = zfill (BYTE_LEN c * 2) actual_node
             in if actual_node = expected_node
                then t\<lparr>match_count := match_count t + 1,
                       total_count := total_count t + 1,
                       printed := printed t @ [(url, MATCH)]\<rparr>
                else t\<lparr>total_count := total_count t + 1,
                       printed := printed t @ [(url, MISMATCH)]\<rparr>))"

text \<open>
  The loop over the URLs, each paired with what its request does. The key and its
  expected node are computed outside the \<open>try\<close>: an exception there ends the run.
\<close>

fun routing_loop :: "config \<Rightarrow> string list \<Rightarrow> (string \<times> response) list \<Rightarrow> tally \<Rightarrow> py_error + tally" where
  "routing_loop c node_ids [] t = Inr t"
| "routing_loop c node_ids ((url, r) # rest) t =
     (case get_id_from_string c url of
        Inl e \<Rightarrow> Inl e
      | Inr key_hex \<Rightarrow>
          (case get_responsible_node key_hex node_ids of
             Inl e \<Rightarrow> Inl e
           | Inr expected_node \<Rightarrow>
               routing_loop c node_ids rest (compare_response c url expected_node r t)))"

definition urls :: "string list" where
  "urls =
     [''https://httpbin.org/get'',
      ''https://www.gstatic.com/generate_204'',
      ''https://www.google.com/robots.txt'',
      ''https://example.org'',
      ''https://neverssl.com'',
      ''https://httpbin.org/uuid'',
      ''https://httpbin.org/html'',
      ''https://www.wikipedia.org/'']"

definition empty_tally :: tally where
  "empty_tally = \<lparr>match_count = 0, total_count = 0, printed = []\<rparr>"

text \<open>
  A run: \<open>f\<close> is what \<open>load_config\<close> finds on disk and \<open>web k\<close> what the request for
  the \<open>k\<close>-th URL does.
\<close>

definition test_routing :: "cfg_file \<Rightarrow> (nat \<Rightarrow> response) \<Rightarrow> py_error + tally" where
  "test_routing f web =
     (case load_config f default_config of
        Inl e \<Rightarrow> Inl e
      | Inr c \<Rightarrow>
          (case get_node_ids c of
             Inl e \<Rightarrow> Inl e
           | Inr node_ids \<Rightarrow>
               routing_loop c node_ids (zip urls (map web [0..<length urls])) empty_tally))"

subsection \<open>Notions used to state the properties\<close>

text \<open>A configuration as the script keeps it: \<open>BYTE_LEN\<close> is always derived from \<open>ID_BITS\<close>.\<close>

definition consistent :: "config \<Rightarrow> bool" where
  "consistent c \<longleftrightarrow> BYTE_LEN c = (ID_BITS c + 7) div 8"

text \<open>The big-endian value of a byte sequence.\<close>

definition be_nat :: "byte list \<Rightarrow> nat" where
  "be_nat bs = foldl (\<lambda>acc b. 256 * acc + unat b) 0 bs"

text \<open>Strings of lowercase hexadecimal digits, the alphabet of \<open>hex()\<close>.\<close>

definition lower_hex :: "string \<Rightarrow> bool" where
  "lower_hex s \<longleftrightarrow> list_all (\<lambda>c. c \<in> set ''0123456789abcdef'') s"

text \<open>Strings of hexadecimal digits of either case.\<close>

definition any_hex :: "string \<Rightarrow> bool" where
  "any_hex s \<longleftrightarrow> list_all (\<lambda>c. digit_value c \<noteq> None) s"

text \<open>
  Reading two strings with \<open>int(_, 16)\<close> and comparing the integers; false when either
  conversion raises.
\<close>

definition int16_less :: "string \<Rightarrow> string \<Rightarrow> bool" where
  "int16_less a b =
     (case (py_int16 a, py_int16 b) of (Inr x, Inr y) \<Rightarrow> x < y | _ \<Rightarrow> False)"

definition int16_le :: "string \<Rightarrow> string \<Rightarrow> bool" where
  "int16_le a b =
     (case (py_int16 a, py_int16 b) of (Inr x, Inr y) \<Rightarrow> x \<le> y | _ \<Rightarrow> False)"

definition int16_eq :: "string \<Rightarrow> string \<Rightarrow> bool" where
  "int16_eq a b =
     (case (py_int16 a, py_int16 b) of (Inr x, Inr y) \<Rightarrow> x = y | _ \<Rightarrow> False)"

text \<open>An identifier of the width of the configuration: \<open>2 * BYTE_LEN\<close> lowercase digits.\<close>

definition hex_id :: "config \<Rightarrow> string \<Rightarrow> bool" where
  "hex_id c h \<longleftrightarrow> lower_hex h \<and> int (length h) = 2 * BYTE_LEN c"

text \<open>An identifier width between 1 and 160 bits, the size of a SHA-1 digest.\<close>

definition valid_config :: "config \<Rightarrow> bool" where
  "valid_config c \<longleftrightarrow> 1 \<le> ID_BITS c \<and> ID_BITS c \<le> 160 \<and> consistent c"

text \<open>A ring with at least one node, every identifier a non-empty string of digits.\<close>

definition valid_ring :: "string list \<Rightarrow> bool" where
  "valid_ring node_ids \<longleftrightarrow> node_ids \<noteq> [] \<and> list_all (\<lambda>h. any_hex h \<and> h \<noteq> []) node_ids"

text \<open>A request that gives nothing to compare: it raised, or the status is not 200.\<close>

definition unverifiable :: "response \<Rightarrow> bool" where
  "unverifiable r = (case r of RequestException \<Rightarrow> True | Response status_code _ \<Rightarrow> status_code \<noteq> 200)"

text \<open>The two counters of a run, or the exception that ended it.\<close>

definition counts_of :: "py_error + tally \<Rightarrow> py_error + int \<times> int" where
  "counts_of r = (case r of Inl e \<Rightarrow> Inl e | Inr t \<Rightarrow> Inr (match_count t, total_count t))"

subsection \<open>SHA-1 on integers\<close>

text \<open>
  The same algorithm with 32-bit words held in \<open>int\<close> and the wrap-around written with
  \<open>take_bit 32\<close>. It is proved below to compute \<open>sha1\<close>; its only use is to evaluate
  digests of concrete strings.
\<close>

definition add32 :: "int \<Rightarrow> int \<Rightarrow> int" where
  "add32 a b = take_bit 32 (a + b)"

definition rotl32 :: "nat \<Rightarrow> int \<Rightarrow> int" where
  "rotl32 n w = take_bit 32 (push_bit n w) OR drop_bit (32 - n) (take_bit 32 w)"

definition f32 :: "nat \<Rightarrow> int \<Rightarrow> int \<Rightarrow> int \<Rightarrow> int" where
  "f32 t b c d =
     (if t < 20 then (b AND c) OR (NOT b AND d)
      else if t < 40 then b XOR c XOR d
      else if t < 60 then (b AND c) OR (b AND d) OR (c AND d)
      else b XOR c XOR d)"

definition k32 :: "nat \<Rightarrow> int" where
  "k32 t =
     (if t < 20 then 0x5A827999
      else if t < 40 then 0x6ED9EBA1
      else if t < 60 then 0x8F1BBCDC
      else 0xCA62C1D6)"

type_synonym state32 = "int \<times> int \<times> int \<times> int \<times> int"

definition round32 :: "nat \<times> int \<Rightarrow> state32 \<Rightarrow> state32" where
  "round32 tw s =
     (case s of (a, b, c, d, e) \<Rightarrow>
        (add32 (add32 (add32 (add32 (rotl32 5 a) (f32 (fst tw) b c d)) e) (k32 (fst tw))) (snd tw),
         a, rotl32 30 b, c, d))"

fun expand32 :: "nat \<Rightarrow> int list \<Rightarrow> int list" where
  "expand32 0 ws = ws"
| "expand32 (Suc n) ws =
     (let l = length ws
      in expand32 n
           (ws @ [rotl32 1 (ws ! (l - 3) XOR ws ! (l - 8) XOR ws ! (l - 14) XOR ws ! (l - 16))]))"

definition be_int :: "int list \<Rightarrow> int" where
  "be_int bs = foldl (\<lambda>acc b. push_bit 8 acc OR take_bit 8 b) 0 bs"

definition bytes32 :: "int \<Rightarrow> int list" where
  "bytes32 w = [take_bit 8 (drop_bit 24 w), take_bit 8 (drop_bit 16 w), take_bit 8 (drop_bit 8 w), take_bit 8 w]"

definition block32 :: "state32 \<Rightarrow> int list \<Rightarrow> state32" where
  "block32 h blk =
     (let ws = expand32 64 (map be_int (chunks 16 4 blk));
          r = fold round32 (zip [0..<80] ws) h
      in case (h, r) of ((h0, h1, h2, h3, h4), (a, b, c, d, e)) \<Rightarrow>
           (add32 h0 a, add32 h1 b, add32 h2 c, add32 h3 d, add32 h4 e))"

definition pad32 :: "int list \<Rightarrow> int list" where
  "pad32 m =
     (let n = int (8 * length m)
      in m @ [0x80] @ replicate ((119 - length m mod 64) mod 64) 0
           @ map (\<lambda>i. take_bit 8 (drop_bit (8 * (7 - i)) (take_bit 64 n))) [0..<8])"

definition sha1_int :: "int list \<Rightarrow> int list" where
  "sha1_int m =
     (let p = pad32 m;
          h = foldl block32 (0x67452301, 0xEFCDAB89, 0x98BADCFE, 0x10325476, 0xC3D2E1F0)
                (chunks (length p div 64) 64 p)
      in case h of (h0, h1, h2, h3, h4) \<Rightarrow>
           bytes32 h0 @ bytes32 h1 @ bytes32 h2 @ bytes32 h3 @ bytes32 h4)"

abbreviation W32 :: "int \<Rightarrow> u32" where "W32 \<equiv> word_of_int"
abbreviation W8 :: "int \<Rightarrow> byte" where "W8 \<equiv> word_of_int"

definition words_of :: "state32 \<Rightarrow> sha1_state" where
  "words_of s = (case s of (a, b, c, d, e) \<Rightarrow> (W32 a, W32 b, W32 c, W32 d, W32 e))"

section \<open>Configuration\<close>

text \<open>
  \<open>BYTE_LEN\<close> is derived from \<open>ID_BITS\<close> when the module is loaded and again at the end of
  \<open>load_config\<close>: every configuration the script computes with is consistent.
\<close>

lemma consistent_default: "consistent default_config"
  by (simp add: consistent_def default_config_def)

lemma load_config_consistent:
  assumes "load_config f c = Inr c'" "consistent c"
  shows "consistent c'"
proof (cases f)
  case Absent
  with assms show ?thesis by (simp add: load_config_def)
next
  case LoadFails
  with assms show ?thesis by (simp add: load_config_def)
next
  case (Loaded n b)
  with assms(1) show ?thesis
    by (cases n; cases b) (auto simp: load_config_def consistent_def)
qed

section \<open>Hexadecimal text and digests\<close>

lemma length_word_bytes: "length (word_bytes w) = 4"
  by (simp add: word_bytes_def)

lemma length_sha1: "length (sha1 m) = 20"
  by (simp add: sha1_def Let_def length_word_bytes split: prod.split)

lemma digit_value_hex_digit: "n < 16 \<Longrightarrow> digit_value (hex_digit n) = Some n"
proof -
  assume "n < 16"
  then consider "n = 0" | "n = 1" | "n = 2" | "n = 3" | "n = 4" | "n = 5" | "n = 6" | "n = 7"
    | "n = 8" | "n = 9" | "n = 10" | "n = 11" | "n = 12" | "n = 13" | "n = 14" | "n = 15"
    by atomize_elim arith
  then show ?thesis
    by cases (simp_all add: hex_digit_def digit_value_def)
qed

lemma hex_digit_lower: "n < 16 \<Longrightarrow> hex_digit n \<in> set ''0123456789abcdef''"
  unfolding hex_digit_def by (rule nth_mem) simp

lemma hex_acc_hex_byte: "hex_acc acc (hex_byte b @ s) = hex_acc (256 * acc + unat b) s"
proof -
  have d: "unat b div 16 < 16"
    using unsigned_less [of b, where 'a = nat] by (simp add: less_mult_imp_div_less)
  have m: "unat b mod 16 < 16" by simp
  have "16 * (16 * acc + unat b div 16) + unat b mod 16 = 256 * acc + unat b"
    by simp
  then show ?thesis
    by (simp add: hex_byte_def digit_value_hex_digit [OF d] digit_value_hex_digit [OF m] add.commute)
qed

lemma hex_acc_bytes_hex:
  "hex_acc acc (bytes_hex bs) = Some (foldl (\<lambda>a b. 256 * a + unat b) acc bs)"
proof (induction bs arbitrary: acc)
  case Nil
  show ?case by (simp add: bytes_hex_def)
next
  case (Cons b bs)
  have "bytes_hex (b # bs) = hex_byte b @ bytes_hex bs" by (simp add: bytes_hex_def)
  then show ?case by (simp add: hex_acc_hex_byte Cons.IH)
qed

lemma length_bytes_hex: "length (bytes_hex bs) = 2 * length bs"
  by (induction bs) (simp_all add: bytes_hex_def hex_byte_def)

lemma py_int16_bytes_hex: "bs \<noteq> [] \<Longrightarrow> py_int16 (bytes_hex bs) = Inr (int (be_nat bs))"
proof -
  assume "bs \<noteq> []"
  then have "length (bytes_hex bs) \<noteq> 0" by (simp add: length_bytes_hex)
  then have "bytes_hex bs \<noteq> []" by simp
  then show ?thesis by (simp add: py_int16_def hex_acc_bytes_hex be_nat_def)
qed

lemma lower_hex_bytes_hex: "lower_hex (bytes_hex bs)"
proof -
  have "lower_hex (hex_byte b)" for b
  proof -
    have d: "unat b div 16 < 16"
      using unsigned_less [of b, where 'a = nat] by (simp add: less_mult_imp_div_less)
    show ?thesis
      unfolding lower_hex_def hex_byte_def
      using hex_digit_lower [OF d] hex_digit_lower [of "unat b mod 16"] by simp
  qed
  then show ?thesis
    by (induction bs) (simp_all add: bytes_hex_def lower_hex_def)
qed

section \<open>The integer evaluator computes SHA-1\<close>

lemma W_take_bit: "W32 (take_bit 32 k) = W32 k"
  by (rule bit_word_eqI) (simp add: bit_simps)

lemma W_add32: "W32 (add32 a b) = W32 a + W32 b"
  by (simp add: add32_def W_take_bit)

lemma rot_idx:
  "n < 32 \<Longrightarrow> m < 32 \<Longrightarrow> (m + 32 - n) mod 32 = (if n \<le> m then m - n else m + 32 - n)"
  for n m :: nat
proof (cases "n \<le> m")
  case True
  assume "m < 32"
  from True have "(m + 32 - n) mod 32 = ((m - n) + 32) mod 32" by simp
  also have "\<dots> = (m - n) mod 32" by (rule mod_add_self2)
  also from \<open>m < 32\<close> have "\<dots> = m - n" by simp
  finally show ?thesis using True by simp
next
  case False
  moreover assume "n < 32" "m < 32"
  ultimately show ?thesis by simp
qed

lemma W_rotl32: "n < 32 \<Longrightarrow> W32 (rotl32 n w) = word_rotl n (W32 w)"
  unfolding rotl32_def
proof (rule bit_word_eqI)
  fix m
  assume n: "n < 32" and "m < LENGTH(32)"
  then have m: "m < 32" by simp
  have flip: "32 + m - n = m + 32 - n" by simp
  show "bit (W32 (take_bit 32 (push_bit n w) OR drop_bit (32 - n) (take_bit 32 w))) m
      = bit (word_rotl n (W32 w)) m"
    using n m by (auto simp: bit_simps rot_idx flip)
qed

lemma W_f32: "W32 (f32 t b c d) = sha1_f t (W32 b) (W32 c) (W32 d)"
  unfolding f32_def sha1_f_def
  by (rule bit_word_eqI) (auto simp: bit_simps)

lemma W_k32: "W32 (k32 t) = sha1_k t"
  by (simp add: k32_def sha1_k_def)

lemma B_bytes32: "map W8 (bytes32 w) = word_bytes (W32 w)"
  unfolding bytes32_def word_bytes_def
  by (simp, intro conjI; rule bit_word_eqI; auto simp: bit_simps)


lemma round32_refines: "sha1_round (t, W32 w) (words_of s) = words_of (round32 (t, w) s)"
  by (cases s)
    (simp add: sha1_round_def round32_def words_of_def W_add32 W_rotl32 W_f32 W_k32)

lemma expand32_refines:
  "ws \<noteq> [] \<Longrightarrow> sha1_expand n (map W32 ws) = map W32 (expand32 n ws)"
proof (induction n arbitrary: ws)
  case 0
  show ?case by simp
next
  case (Suc n)
  let ?l = "length ws"
  let ?x = "ws ! (?l - 3) XOR ws ! (?l - 8) XOR ws ! (?l - 14) XOR ws ! (?l - 16)"
  from Suc.prems have i: "?l - 3 < ?l" "?l - 8 < ?l" "?l - 14 < ?l" "?l - 16 < ?l"
    by (cases ws; simp)+
  have "word_rotl 1 (map W32 ws ! (?l - 3) XOR map W32 ws ! (?l - 8)
          XOR map W32 ws ! (?l - 14) XOR map W32 ws ! (?l - 16)) = W32 (rotl32 1 ?x)"
    using i by (simp add: W_rotl32 of_int_xor_eq)
  then have "sha1_expand (Suc n) (map W32 ws) = sha1_expand n (map W32 (ws @ [rotl32 1 ?x]))"
    by (simp add: Let_def)
  also have "\<dots> = map W32 (expand32 n (ws @ [rotl32 1 ?x]))"
    by (rule Suc.IH) simp
  finally show ?case by (simp add: Let_def)
qed

lemma fold_round32_refines:
  "fold sha1_round (zip ts (map W32 ws)) (words_of s) = words_of (fold round32 (zip ts ws) s)"
proof (induction ws arbitrary: ts s)
  case Nil
  show ?case by simp
next
  case (Cons w ws)
  show ?case
  proof (cases ts)
    case Nil
    then show ?thesis by simp
  next
    case (Cons t ts')
    then show ?thesis
      by (simp add: round32_refines Cons.IH)
  qed
qed

lemma be_int_acc:
  "foldl (\<lambda>acc b. push_bit 8 acc OR ucast b) (W32 acc) (map W8 bs)
     = W32 (foldl (\<lambda>acc b. push_bit 8 acc OR take_bit 8 b) acc bs)"
proof (induction bs arbitrary: acc)
  case Nil
  show ?case by simp
next
  case (Cons b bs)
  have "push_bit 8 (W32 acc) OR ucast (W8 b) = W32 (push_bit 8 acc OR take_bit 8 b)"
    by (rule bit_word_eqI) (auto simp: bit_simps)
  then show ?case by (simp add: Cons.IH)
qed

lemma be_int_refines: "be_word (map W8 bs) = W32 (be_int bs)"
  using be_int_acc [of 0 bs] by (simp add: be_word_def be_int_def)

lemma chunks_map: "chunks n k (map f xs) = map (map f) (chunks n k xs)"
  by (induction n arbitrary: xs) (simp_all add: take_map drop_map)

lemma length_chunks: "length (chunks n k xs) = n"
  by (induction n arbitrary: xs) simp_all

lemma block32_refines: "sha1_block (words_of h) (map W8 blk) = words_of (block32 h blk)"
proof -
  let ?ws = "map be_int (chunks 16 4 blk)"
  have ne: "?ws \<noteq> []"
    using length_chunks [of 16 4 blk] by auto
  have "map be_word (chunks 16 4 (map W8 blk)) = map W32 ?ws"
    by (simp add: chunks_map be_int_refines)
  then have ws: "sha1_expand 64 (map be_word (chunks 16 4 (map W8 blk))) = map W32 (expand32 64 ?ws)"
    by (simp only: expand32_refines [OF ne])
  obtain a b c d e where r: "fold round32 (zip [0..<80] (expand32 64 ?ws)) h = (a, b, c, d, e)"
    by (cases "fold round32 (zip [0..<80] (expand32 64 ?ws)) h") auto
  obtain h0 h1 h2 h3 h4 where h: "h = (h0, h1, h2, h3, h4)"
    by (cases h) auto
  have "fold sha1_round (zip [0..<80] (map W32 (expand32 64 ?ws))) (words_of h)
          = words_of (a, b, c, d, e)"
    by (simp only: fold_round32_refines r)
  then show ?thesis
    unfolding sha1_block_def block32_def Let_def ws r
    by (simp add: h words_of_def W_add32)
qed

lemma pad32_refines: "sha1_pad (map W8 m) = map W8 (pad32 m)"
proof -
  have byte: "(ucast (drop_bit j (of_nat N :: 64 word)) :: byte)
          = W8 (take_bit 8 (drop_bit j (take_bit 64 (int N))))" for j N
    by (rule bit_word_eqI) (auto simp: bit_simps)
  have tail: "map (\<lambda>i. ucast (drop_bit (8 * (7 - i)) (of_nat N :: 64 word)) :: byte) [0..<8]
          = map W8 (map (\<lambda>i. take_bit 8 (drop_bit (8 * (7 - i)) (take_bit 64 (int N)))) [0..<8])" for N
    by (simp only: byte map_map o_def)
  show ?thesis
    unfolding sha1_pad_def pad32_def Let_def length_map tail by simp
qed

lemma foldl_block32_refines:
  "foldl sha1_block (words_of h) (map (map W8) blks) = words_of (foldl block32 h blks)"
  by (induction blks arbitrary: h) (simp_all add: block32_refines)

lemma sha1_int_refines: "sha1 (map W8 m) = map W8 (sha1_int m)"
proof -
  let ?init = "(0x67452301, 0xEFCDAB89, 0x98BADCFE, 0x10325476, 0xC3D2E1F0) :: state32"
  let ?blks = "chunks (length (pad32 m) div 64) 64 (pad32 m)"
  have init: "(0x67452301, 0xEFCDAB89, 0x98BADCFE, 0x10325476, 0xC3D2E1F0) = words_of ?init"
    by (simp add: words_of_def)
  obtain h0 h1 h2 h3 h4 where h: "foldl block32 ?init ?blks = (h0, h1, h2, h3, h4)"
    by (cases "foldl block32 ?init ?blks") auto
  have "foldl sha1_block (0x67452301, 0xEFCDAB89, 0x98BADCFE, 0x10325476, 0xC3D2E1F0)
          (chunks (length (sha1_pad (map W8 m)) div 64) 64 (sha1_pad (map W8 m)))
        = words_of (h0, h1, h2, h3, h4)"
    unfolding init pad32_refines length_map chunks_map foldl_block32_refines h ..
  then show ?thesis
    unfolding sha1_def sha1_int_def Let_def h
    by (simp add: words_of_def B_bytes32 [symmetric])
qed

lemma encode_utf8_ints: "encode_utf8 s = map W8 (map of_char s)"
  by (simp add: encode_utf8_def of_int_of_char)

lemma sha1_by_ints: "sha1 (encode_utf8 s) = map W8 (sha1_int (map of_char s))"
  by (simp only: encode_utf8_ints sha1_int_refines)

text \<open>The one-block example of FIPS 180-4: the digest of \<open>abc\<close>.\<close>

lemma digest_abc:
  "sha1_int (map of_char ''abc'') =
     [0xa9, 0x99, 0x3e, 0x36, 0x47, 0x06, 0x81, 0x6a, 0xba, 0x3e,
      0x25, 0x71, 0x78, 0x50, 0xc2, 0x6c, 0x9c, 0xd0, 0xd8, 0x9d]"
  by code_simp

lemma sha1_abc:
  "sha1 (encode_utf8 ''abc'') =
     [0xa9, 0x99, 0x3e, 0x36, 0x47, 0x06, 0x81, 0x6a, 0xba, 0x3e,
      0x25, 0x71, 0x78, 0x50, 0xc2, 0x6c, 0x9c, 0xd0, 0xd8, 0x9d]"
proof -
  have "sha1 (encode_utf8 ''abc'') =
     map W8 [0xa9, 0x99, 0x3e, 0x36, 0x47, 0x06, 0x81, 0x6a, 0xba, 0x3e,
      0x25, 0x71, 0x78, 0x50, 0xc2, 0x6c, 0x9c, 0xd0, 0xd8, 0x9d]"
    by (simp only: sha1_by_ints digest_abc)
  then show ?thesis by simp
qed

section \<open>Identifier derivation\<close>

lemma foldl_be_acc:
  "foldl (\<lambda>a b. 256 * a + unat b) acc bs = acc * 256 ^ length bs + be_nat (bs :: byte list)"
proof (induction bs arbitrary: acc)
  case Nil
  show ?case by (simp add: be_nat_def)
next
  case (Cons b bs)
  define f where "f = (\<lambda>a (b :: byte). 256 * a + unat b)"
  have ih: "foldl f a bs = a * 256 ^ length bs + be_nat bs" for a
    unfolding f_def by (rule Cons.IH)
  have "be_nat (b # bs) = foldl f (f 0 b) bs"
    by (simp add: be_nat_def f_def)
  also have "f 0 b = unat b" by (simp add: f_def)
  finally have hd: "be_nat (b # bs) = unat b * 256 ^ length bs + be_nat bs"
    by (simp add: ih)
  have "foldl f acc (b # bs) = foldl f (256 * acc + unat b) bs"
    by (simp add: f_def)
  also have "\<dots> = (256 * acc + unat b) * 256 ^ length bs + be_nat bs"
    by (rule ih)
  also have "\<dots> = acc * 256 ^ length (b # bs) + be_nat (b # bs)"
    unfolding hd by (simp add: algebra_simps)
  finally show ?case unfolding f_def .
qed

lemma be_nat_Cons: "be_nat (b # bs) = unat b * 256 ^ length bs + be_nat bs"
  using foldl_be_acc [of "unat b" bs] by (simp add: be_nat_def)

lemma be_nat_less: "be_nat bs < 256 ^ length bs"
proof (induction bs)
  case Nil
  show ?case by (simp add: be_nat_def)
next
  case (Cons b bs)
  have "unat b \<le> 255"
    using unsigned_less [of b, where 'a = nat] by simp
  then have "unat b * 256 ^ length bs \<le> 255 * 256 ^ length bs"
    by (rule mult_le_mono1)
  with Cons.IH have "unat b * 256 ^ length bs + be_nat bs < 255 * 256 ^ length bs + 256 ^ length bs"
    by linarith
  then show ?case by (simp add: be_nat_Cons)
qed

lemma and_mask_byte:
  "k \<le> 8 \<Longrightarrow> (b :: byte) AND drop_bit k 0xFF = take_bit (8 - k) b"
proof -
  assume "k \<le> 8"
  have m: "(0xFF :: byte) = - 1" by simp
  have "drop_bit k (0xFF :: byte) = mask (8 - k)"
    unfolding m by simp
  then show ?thesis
    by (simp add: take_bit_eq_mask)
qed

lemma unat_mask_byte:
  "k \<le> 8 \<Longrightarrow> unat ((b :: byte) AND drop_bit k 0xFF) = unat b mod 2 ^ (8 - k)"
proof -
  assume "k \<le> 8"
  then have "unat (b AND drop_bit k 0xFF) = unat (take_bit (8 - k) b)"
    by (simp only: and_mask_byte)
  also have "\<dots> = take_bit (8 - k) (unat b)"
    by (rule unsigned_take_bit_eq)
  also have "\<dots> = unat b mod 2 ^ (8 - k)"
    by (rule take_bit_eq_mod)
  finally show ?thesis .
qed

lemma mod_split_high:
  "y < M \<Longrightarrow> (x * M + y) mod (2 ^ k * M) = (x mod 2 ^ k) * M + (y :: nat)"
proof -
  assume y: "y < M"
  have "(x * M + y) mod (M * 2 ^ k) = M * ((x * M + y) div M mod 2 ^ k) + (x * M + y) mod M"
    by (rule mod_mult2_eq)
  moreover from y have "(x * M + y) div M = x" by simp
  moreover from y have "(x * M + y) mod M = y" by simp
  ultimately show ?thesis by (simp add: mult.commute)
qed

lemma be_nat_mask_first:
  assumes "k \<le> 8"
  shows "be_nat ((b AND drop_bit k 0xFF) # bs) = be_nat (b # bs) mod 2 ^ (8 * Suc (length bs) - k)"
proof -
  have e: "(2::nat) ^ (8 * Suc (length bs) - k) = 2 ^ (8 - k) * 256 ^ length bs"
  proof -
    from assms have "8 * Suc (length bs) - k = (8 - k) + 8 * length bs" by simp
    then have "(2::nat) ^ (8 * Suc (length bs) - k) = 2 ^ (8 - k) * 2 ^ (8 * length bs)"
      by (simp add: power_add)
    also have "(2::nat) ^ (8 * length bs) = 256 ^ length bs"
      by (simp add: power_mult)
    finally show ?thesis .
  qed
  show ?thesis
    unfolding be_nat_Cons e unat_mask_byte [OF assms]
    by (rule mod_split_high [OF be_nat_less, symmetric])
qed


lemma valid_byte_len:
  assumes "1 \<le> ID_BITS c" "ID_BITS c \<le> 160" "consistent c"
  shows "1 \<le> BYTE_LEN c" "BYTE_LEN c \<le> 20"
    "0 \<le> BYTE_LEN c * 8 - ID_BITS c" "BYTE_LEN c * 8 - ID_BITS c \<le> 7"
  using assms unfolding consistent_def by simp_all

lemma get_id_valid:
  assumes "1 \<le> ID_BITS c" "ID_BITS c \<le> 160" "consistent c"
  shows "\<exists>bs. get_id_from_string c s = Inr (bytes_hex bs)
           \<and> length bs = nat (BYTE_LEN c)
           \<and> be_nat bs = be_nat (slice_to (BYTE_LEN c) (sha1 (encode_utf8 s))) mod 2 ^ nat (ID_BITS c)
           \<and> bs = (if BYTE_LEN c * 8 - ID_BITS c = 0 then slice_to (BYTE_LEN c) (sha1 (encode_utf8 s))
                   else take_bit (8 - nat (BYTE_LEN c * 8 - ID_BITS c))
                          (hd (slice_to (BYTE_LEN c) (sha1 (encode_utf8 s))))
                        # tl (slice_to (BYTE_LEN c) (sha1 (encode_utf8 s))))"
proof -
  note v = valid_byte_len [OF assms]
  define buf where "buf = slice_to (BYTE_LEN c) (sha1 (encode_utf8 s))"
  define e where "e = BYTE_LEN c * 8 - ID_BITS c"
  have len: "length buf = nat (BYTE_LEN c)"
    using v by (simp add: buf_def slice_to_def length_sha1)
  have bits: "nat (ID_BITS c) = 8 * length buf - nat e"
    using v assms(1) by (simp add: len e_def)
  show ?thesis
  proof (cases "e > 0")
    case False
    with v have e0: "e = 0" by (simp add: e_def)
    have "be_nat buf < 256 ^ length buf" by (rule be_nat_less)
    also have "(256::nat) ^ length buf = 2 ^ (8 * length buf)"
      by (simp add: power_mult)
    finally have "be_nat buf mod 2 ^ nat (ID_BITS c) = be_nat buf"
      by (simp add: bits e0)
    moreover have "get_id_from_string c s = Inr (bytes_hex buf)"
      using e0 by (simp add: get_id_from_string_def Let_def buf_def e_def)
    ultimately show ?thesis
      using len e0 by (auto simp: buf_def e_def)
  next
    case True
    from len v obtain b bs where buf: "buf = b # bs"
      by (cases buf) auto
    have k: "nat e \<le> 8" using v by (simp add: e_def)
    have res: "get_id_from_string c s = Inr (bytes_hex ((b AND drop_bit (nat e) 0xFF) # bs))"
      using True buf unfolding get_id_from_string_def Let_def buf_def [symmetric] e_def [symmetric]
      by simp
    have "be_nat ((b AND drop_bit (nat e) 0xFF) # bs) = be_nat buf mod 2 ^ nat (ID_BITS c)"
      using be_nat_mask_first [OF k, of b bs] by (simp add: bits buf)
    moreover have "b AND drop_bit (nat e) 0xFF = take_bit (8 - nat e) b"
      by (rule and_mask_byte [OF k])
    ultimately show ?thesis
      using res len True buf unfolding buf_def [symmetric] e_def [symmetric]
      by (intro exI [of _ "(b AND drop_bit (nat e) 0xFF) # bs"]) simp
  qed
qed

section \<open>Lexicographic and numeric order\<close>

lemma lower_char_code:
  assumes "c \<in> set ''0123456789abcdef''"
  shows "(48 \<le> (of_char c :: nat) \<and> (of_char c :: nat) \<le> 57)
       \<or> (97 \<le> (of_char c :: nat) \<and> (of_char c :: nat) \<le> 102)"
  using assms by auto

lemma lower_digit_value:
  assumes "c \<in> set ''0123456789abcdef''"
  shows "\<exists>x. digit_value c = Some x \<and> x < 16"
  using lower_char_code [OF assms] by (auto simp: digit_value_def Let_def)

lemma lower_digit_order:
  assumes "c \<in> set ''0123456789abcdef''" "d \<in> set ''0123456789abcdef''"
    and "digit_value c = Some x" "digit_value d = Some y"
  shows "(c < d \<longleftrightarrow> x < y) \<and> (c = d \<longleftrightarrow> x = y)"
proof -
  define m where "m = (of_char c :: nat)"
  define n where "n = (of_char d :: nat)"
  have eq: "c = d \<longleftrightarrow> m = n" by (simp add: m_def n_def)
  have less: "c < d \<longleftrightarrow> m < n" by (simp add: less_char_def m_def n_def)
  have rm: "(48 \<le> m \<and> m \<le> 57) \<or> (97 \<le> m \<and> m \<le> 102)"
    unfolding m_def by (rule lower_char_code [OF assms(1)])
  have rn: "(48 \<le> n \<and> n \<le> 57) \<or> (97 \<le> n \<and> n \<le> 102)"
    unfolding n_def by (rule lower_char_code [OF assms(2)])
  have x: "x = (if m \<le> 57 then m - 48 else m - 87)"
    using assms(3) rm unfolding digit_value_def Let_def m_def [symmetric]
    by (auto split: if_splits)
  have y: "y = (if n \<le> 57 then n - 48 else n - 87)"
    using assms(4) rn unfolding digit_value_def Let_def n_def [symmetric]
    by (auto split: if_splits)
  show ?thesis
    unfolding eq less x y using rm rn by auto
qed

lemma lower_hex_Cons: "lower_hex (c # s) \<longleftrightarrow> c \<in> set ''0123456789abcdef'' \<and> lower_hex s"
  by (simp add: lower_hex_def)

lemma lower_hex_acc_bounds:
  "lower_hex s \<Longrightarrow>
     \<exists>v. hex_acc acc s = Some v \<and> acc * 16 ^ length s \<le> v \<and> v < (acc + 1) * 16 ^ length s"
proof (induction s arbitrary: acc)
  case Nil
  show ?case by simp
next
  case (Cons c s)
  from Cons.prems have c: "c \<in> set ''0123456789abcdef''" and s: "lower_hex s"
    by (simp_all add: lower_hex_Cons)
  from lower_digit_value [OF c] obtain x where x: "digit_value c = Some x" "x < 16"
    by blast
  from Cons.IH [OF s, of "16 * acc + x"] obtain v where
    v: "hex_acc (16 * acc + x) s = Some v"
      "(16 * acc + x) * 16 ^ length s \<le> v" "v < (16 * acc + x + 1) * 16 ^ length s"
    by blast
  have "acc * 16 ^ length (c # s) \<le> (16 * acc + x) * 16 ^ length s"
    by (simp add: algebra_simps)
  moreover have "(16 * acc + x + 1) * 16 ^ length s \<le> (acc + 1) * 16 ^ length (c # s)"
  proof -
    from x(2) have "16 * acc + x + 1 \<le> (acc + 1) * 16" by simp
    then have "(16 * acc + x + 1) * 16 ^ length s \<le> ((acc + 1) * 16) * 16 ^ length s"
      by (rule mult_le_mono1)
    then show ?thesis by (simp add: algebra_simps)
  qed
  ultimately have "acc * 16 ^ length (c # s) \<le> v" "v < (acc + 1) * 16 ^ length (c # s)"
    using v(2,3) by linarith+
  moreover have "hex_acc acc (c # s) = Some v"
    using x(1) v(1) by simp
  ultimately show ?case by blast
qed

lemma lex_order_is_numeric:
  assumes "length a = length b" "lower_hex a" "lower_hex b"
    and "hex_acc acc a = Some va" "hex_acc acc b = Some vb"
  shows "(a < b \<longleftrightarrow> va < vb) \<and> (a = b \<longleftrightarrow> va = vb)"
  using assms
proof (induction a b arbitrary: acc rule: list_induct2)
  case Nil
  then show ?case by simp
next
  case (Cons c a d b)
  from Cons.prems have c: "c \<in> set ''0123456789abcdef''" and a: "lower_hex a"
    and d: "d \<in> set ''0123456789abcdef''" and b: "lower_hex b"
    by (simp_all add: lower_hex_Cons)
  from lower_digit_value [OF c] obtain x where x: "digit_value c = Some x" "x < 16" by blast
  from lower_digit_value [OF d] obtain y where y: "digit_value d = Some y" "y < 16" by blast
  note ord = lower_digit_order [OF c d x(1) y(1)]
  from Cons.prems x have va: "hex_acc (16 * acc + x) a = Some va" by simp
  from Cons.prems y have vb: "hex_acc (16 * acc + y) b = Some vb" by simp
  from lower_hex_acc_bounds [OF a, of "16 * acc + x"] va
  have ba: "(16 * acc + x) * 16 ^ length a \<le> va" "va < (16 * acc + x + 1) * 16 ^ length a"
    by auto
  from lower_hex_acc_bounds [OF b, of "16 * acc + y"] vb Cons.hyps
  have bb: "(16 * acc + y) * 16 ^ length a \<le> vb" "vb < (16 * acc + y + 1) * 16 ^ length a"
    by auto
  consider "x = y" | "x < y" | "y < x" by linarith
  then show ?case
  proof cases
    case 1
    with ord have "c = d" by simp
    moreover from Cons.IH [OF a b va] vb 1
    have "(a < b \<longleftrightarrow> va < vb) \<and> (a = b \<longleftrightarrow> va = vb)" by simp
    ultimately show ?thesis by simp
  next
    case 2
    then have "(16 * acc + x + 1) * 16 ^ length a \<le> (16 * acc + y) * 16 ^ length a"
      by (intro mult_le_mono1) simp
    with ba bb have "va < vb" by linarith
    moreover from 2 ord have "c < d" "c \<noteq> d" by simp_all
    ultimately show ?thesis by simp
  next
    case 3
    then have "(16 * acc + y + 1) * 16 ^ length a \<le> (16 * acc + x) * 16 ^ length a"
      by (intro mult_le_mono1) simp
    with ba bb have "vb < va" by linarith
    moreover from 3 ord have "\<not> c < d" "c \<noteq> d" by auto
    ultimately show ?thesis by simp
  qed
qed

section \<open>Ring construction\<close>

lemma py_int16_order:
  assumes "lower_hex a" "lower_hex b" "length a = length b" "a \<noteq> []"
  shows "\<exists>x y. py_int16 a = Inr x \<and> py_int16 b = Inr y \<and> 0 \<le> x
           \<and> (a < b \<longleftrightarrow> x < y) \<and> (a = b \<longleftrightarrow> x = y)"
proof -
  from lower_hex_acc_bounds [OF assms(1), of 0] obtain va where va: "hex_acc 0 a = Some va"
    by blast
  from lower_hex_acc_bounds [OF assms(2), of 0] obtain vb where vb: "hex_acc 0 b = Some vb"
    by blast
  from assms(3,4) have "b \<noteq> []" by auto
  with assms(4) va vb have "py_int16 a = Inr (int va)" "py_int16 b = Inr (int vb)"
    by (simp_all add: py_int16_def)
  moreover from lex_order_is_numeric [OF assms(3) assms(1,2) va vb]
  have "(a < b \<longleftrightarrow> int va < int vb) \<and> (a = b \<longleftrightarrow> int va = int vb)" by simp
  ultimately show ?thesis by simp
qed

lemma get_id_shape:
  assumes "1 \<le> ID_BITS c" "ID_BITS c \<le> 160" "consistent c"
  shows "\<exists>h. get_id_from_string c s = Inr h \<and> hex_id c h \<and> h \<noteq> []"
proof -
  from get_id_valid [OF assms, of s] obtain bs where
    bs: "get_id_from_string c s = Inr (bytes_hex bs)" "length bs = nat (BYTE_LEN c)"
    by blast
  from valid_byte_len(1) [OF assms] bs(2) have "int (length (bytes_hex bs)) = 2 * BYTE_LEN c"
    by (simp add: length_bytes_hex)
  moreover from this valid_byte_len(1) [OF assms] have "bytes_hex bs \<noteq> []" by auto
  ultimately show ?thesis
    using bs(1) by (simp add: hex_id_def lower_hex_bytes_hex)
qed

lemma node_ids_loop_valid:
  assumes "1 \<le> ID_BITS c" "ID_BITS c \<le> 160" "consistent c"
  shows "\<exists>hs. node_ids_loop c js acc = Inr (acc @ hs)
            \<and> map Inr hs = map (\<lambda>i. get_id_from_string c (node_name i)) js"
proof (induction js arbitrary: acc)
  case Nil
  show ?case by simp
next
  case (Cons j js)
  from get_id_shape [OF assms, of "node_name j"] obtain h where
    h: "get_id_from_string c (node_name j) = Inr h" by blast
  from Cons.IH [of "acc @ [h]"] obtain hs where
    hs: "node_ids_loop c js (acc @ [h]) = Inr ((acc @ [h]) @ hs)"
      "map Inr hs = map (\<lambda>i. get_id_from_string c (node_name i)) js"
    by blast
  have "node_ids_loop c (j # js) acc = Inr (acc @ (h # hs))"
    using h hs(1) by simp
  moreover have "map Inr (h # hs) = map (\<lambda>i. get_id_from_string c (node_name i)) (j # js)"
    using h hs(2) by simp
  ultimately show ?case by blast
qed

lemma get_node_ids_valid:
  assumes "1 \<le> ID_BITS c" "ID_BITS c \<le> 160" "consistent c"
  shows "\<exists>hs. get_node_ids c = Inr (sort hs)
            \<and> map Inr hs = map (\<lambda>i. get_id_from_string c (node_name i)) [0..<nat (NUM_NODES c)]
            \<and> list_all (\<lambda>h. hex_id c h \<and> h \<noteq> []) hs"
proof -
  from node_ids_loop_valid [OF assms, of "[0..<nat (NUM_NODES c)]" "[]"] obtain hs where
    hs: "node_ids_loop c [0..<nat (NUM_NODES c)] [] = Inr hs"
      "map Inr hs = map (\<lambda>i. get_id_from_string c (node_name i)) [0..<nat (NUM_NODES c)]"
    by auto
  have "hex_id c h \<and> h \<noteq> []" if "h \<in> set hs" for h
  proof -
    from that have "Inr h \<in> set (map Inr hs :: (py_error + string) list)" by simp
    then obtain i where "get_id_from_string c (node_name i) = Inr h"
      unfolding hs(2) by auto
    with get_id_shape [OF assms, of "node_name i"] show ?thesis by simp
  qed
  then have "list_all (\<lambda>h. hex_id c h \<and> h \<noteq> []) hs"
    by (simp add: list_all_iff)
  with hs show ?thesis
    by (intro exI [of _ hs]) (simp add: get_node_ids_def)
qed

lemma sorted_hex_ids:
  assumes "list_all (\<lambda>h. hex_id c h \<and> h \<noteq> []) hs" "sorted_wrt (<) hs"
  shows "sorted_wrt int16_less hs"
proof (rule sorted_wrt_mono_rel [OF _ assms(2)])
  fix a b
  assume "a \<in> set hs" "b \<in> set hs" "a < b"
  with assms(1) have ab: "hex_id c a" "hex_id c b" "a \<noteq> []"
    by (auto simp: list_all_iff)
  then have "int (length a) = int (length b)"
    by (simp add: hex_id_def)
  with ab have "lower_hex a" "lower_hex b" "length a = length b" "a \<noteq> []"
    by (simp_all add: hex_id_def)
  from py_int16_order [OF this] \<open>a < b\<close> show "int16_less a b"
    by (auto simp: int16_less_def)
qed

text \<open>
  Claim C2. For a node count of at least 1 and an identifier width between 1 and 160 bits,
  \<open>get_node_ids\<close> returns exactly \<open>NUM_NODES\<close> identifiers, a permutation of the
  identifiers derived from the names \<open>koorde-node-0\<close>, \<open>koorde-node-1\<close>, ...; each is a
  string of \<open>2 * BYTE_LEN\<close> lowercase hexadecimal digits, so the lexicographic order the
  code sorts by is the order of the integers they denote; and when the derived identifiers
  are distinct, the result is strictly ascending as integers.
\<close>

theorem get_node_ids_sorted:
  assumes "1 \<le> NUM_NODES c" "1 \<le> ID_BITS c" "ID_BITS c \<le> 160" "consistent c"
  shows "\<exists>ids. get_node_ids c = Inr ids
           \<and> int (length ids) = NUM_NODES c
           \<and> mset (map Inr ids) =
               mset (map (\<lambda>i. get_id_from_string c (node_name i)) [0..<nat (NUM_NODES c)])
           \<and> list_all (hex_id c) ids
           \<and> sorted ids
           \<and> (distinct (map (\<lambda>i. get_id_from_string c (node_name i)) [0..<nat (NUM_NODES c)])
                \<longrightarrow> sorted_wrt int16_less ids)"
proof -
  let ?derived = "map (\<lambda>i. get_id_from_string c (node_name i)) [0..<nat (NUM_NODES c)]"
  from get_node_ids_valid [OF assms(2-4)] obtain hs where
    hs: "get_node_ids c = Inr (sort hs)" "map Inr hs = ?derived"
      "list_all (\<lambda>h. hex_id c h \<and> h \<noteq> []) hs"
    by blast
  have len: "int (length (sort hs)) = NUM_NODES c"
  proof -
    have "length hs = length (map Inr hs :: (py_error + string) list)" by simp
    also have "\<dots> = nat (NUM_NODES c)" unfolding hs(2) by simp
    finally show ?thesis using assms(1) by simp
  qed
  have perm: "mset (map Inr (sort hs)) = mset ?derived"
    unfolding hs(2) [symmetric] by simp
  have shape: "list_all (\<lambda>h. hex_id c h \<and> h \<noteq> []) (sort hs)"
    using hs(3) by (simp add: list_all_iff)
  then have shape': "list_all (hex_id c) (sort hs)"
    by (simp add: list_all_iff)
  have strict: "sorted_wrt int16_less (sort hs)" if "distinct ?derived"
  proof -
    from that have "distinct (map Inr hs :: (py_error + string) list)"
      unfolding hs(2) .
    then have "distinct hs" by (simp add: distinct_map)
    then have "sorted_wrt (<) (sort hs)"
      by (simp add: strict_sorted_iff)
    with shape show ?thesis by (rule sorted_hex_ids)
  qed
  from hs(1) len perm shape' strict show ?thesis by simp
qed

section \<open>The default ring, evaluated\<close>

text \<open>
  The digests of the eight default node names, computed by the integer evaluator, and
  the identifiers \<open>get_id_from_string\<close> derives from them at the default width of 66
  bits.
\<close>

lemma node_name_0: "node_name 0 = ''koorde-node-0''"
  by code_simp

lemma digest_node_0:
  "sha1_int (map of_char ''koorde-node-0'') =
     [89, 187, 136, 29, 139, 85, 129, 249, 45, 190, 102, 180, 36, 232, 81, 82, 142, 136, 3, 249]"
  by code_simp

lemma sha1_node_0:
  "sha1 (encode_utf8 (node_name 0)) =
     map W8 [89, 187, 136, 29, 139, 85, 129, 249, 45, 190, 102, 180, 36, 232, 81, 82, 142, 136, 3, 249]"
  by (simp only: node_name_0 sha1_by_ints digest_node_0)

lemma default_id_0: "get_id_from_string default_config (node_name 0) = Inr ''01bb881d8b5581f92d''"
  by (simp add: sha1_node_0 get_id_from_string_def default_config_def slice_to_def and_mask_byte
      bytes_hex_def hex_byte_def hex_digit_def)

lemma node_name_1: "node_name (Suc 0) = ''koorde-node-1''"
  by code_simp

lemma digest_node_1:
  "sha1_int (map of_char ''koorde-node-1'') =
     [85, 236, 181, 223, 122, 30, 244, 190, 22, 50, 227, 180, 146, 177, 99, 180, 100, 42, 3, 138]"
  by code_simp

lemma sha1_node_1:
  "sha1 (encode_utf8 (node_name (Suc 0))) =
     map W8 [85, 236, 181, 223, 122, 30, 244, 190, 22, 50, 227, 180, 146, 177, 99, 180, 100, 42, 3, 138]"
  by (simp only: node_name_1 sha1_by_ints digest_node_1)

lemma default_id_1: "get_id_from_string default_config (node_name (Suc 0)) = Inr ''01ecb5df7a1ef4be16''"
  by (simp add: sha1_node_1 get_id_from_string_def default_config_def slice_to_def and_mask_byte
      bytes_hex_def hex_byte_def hex_digit_def)

lemma node_name_2: "node_name 2 = ''koorde-node-2''"
  by code_simp

lemma digest_node_2:
  "sha1_int (map of_char ''koorde-node-2'') =
     [103, 14, 242, 221, 201, 177, 187, 240, 198, 161, 209, 72, 245, 149, 113, 114, 225, 150, 172, 247]"
  by code_simp

lemma sha1_node_2:
  "sha1 (encode_utf8 (node_name 2)) =
     map W8 [103, 14, 242, 221, 201, 177, 187, 240, 198, 161, 209, 72, 245, 149, 113, 114, 225, 150, 172, 247]"
  by (simp only: node_name_2 sha1_by_ints digest_node_2)

lemma default_id_2: "get_id_from_string default_config (node_name 2) = Inr ''030ef2ddc9b1bbf0c6''"
  by (simp add: sha1_node_2 get_id_from_string_def default_config_def slice_to_def and_mask_byte
      bytes_hex_def hex_byte_def hex_digit_def)

lemma node_name_3: "node_name 3 = ''koorde-node-3''"
  by code_simp

lemma digest_node_3:
  "sha1_int (map of_char ''koorde-node-3'') =
     [223, 30, 203, 194, 79, 142, 123, 58, 151, 190, 7, 147, 42, 173, 113, 116, 181, 137, 69, 167]"
  by code_simp

lemma sha1_node_3:
  "sha1 (encode_utf8 (node_name 3)) =
     map W8 [223, 30, 203, 194, 79, 142, 123, 58, 151, 190, 7, 147, 42, 173, 113, 116, 181, 137, 69, 167]"
  by (simp only: node_name_3 sha1_by_ints digest_node_3)

lemma default_id_3: "get_id_from_string default_config (node_name 3) = Inr ''031ecbc24f8e7b3a97''"
  by (simp add: sha1_node_3 get_id_from_string_def default_config_def slice_to_def and_mask_byte
      bytes_hex_def hex_byte_def hex_digit_def)

lemma node_name_4: "node_name 4 = ''koorde-node-4''"
  by code_simp

lemma digest_node_4:
  "sha1_int (map of_char ''koorde-node-4'') =
     [185, 35, 221, 209, 165, 21, 124, 52, 215, 117, 20, 39, 149, 153, 130, 222, 172, 152, 238, 10]"
  by code_simp

lemma sha1_node_4:
  "sha1 (encode_utf8 (node_name 4)) =
     map W8 [185, 35, 221, 209, 165, 21, 124, 52, 215, 117, 20, 39, 149, 153, 130, 222, 172, 152, 238, 10]"
  by (simp only: node_name_4 sha1_by_ints digest_node_4)

lemma default_id_4: "get_id_from_string default_config (node_name 4) = Inr ''0123ddd1a5157c34d7''"
  by (simp add: sha1_node_4 get_id_from_string_def default_config_def slice_to_def and_mask_byte
      bytes_hex_def hex_byte_def hex_digit_def)

lemma node_name_5: "node_name 5 = ''koorde-node-5''"
  by code_simp

lemma digest_node_5:
  "sha1_int (map of_char ''koorde-node-5'') =
     [213, 211, 135, 113, 229, 232, 67, 16, 2, 39, 225, 214, 55, 140, 251, 236, 117, 190, 254, 122]"
  by code_simp

lemma sha1_node_5:
  "sha1 (encode_utf8 (node_name 5)) =
     map W8 [213, 211, 135, 113, 229, 232, 67, 16, 2, 39, 225, 214, 55, 140, 251, 236, 117, 190, 254, 122]"
  by (simp only: node_name_5 sha1_by_ints digest_node_5)

lemma default_id_5: "get_id_from_string default_config (node_name 5) = Inr ''01d38771e5e8431002''"
  by (simp add: sha1_node_5 get_id_from_string_def default_config_def slice_to_def and_mask_byte
      bytes_hex_def hex_byte_def hex_digit_def)

lemma node_name_6: "node_name 6 = ''koorde-node-6''"
  by code_simp

lemma digest_node_6:
  "sha1_int (map of_char ''koorde-node-6'') =
     [65, 146, 44, 1, 70, 172, 179, 80, 56, 72, 168, 200, 173, 251, 33, 126, 0, 147, 156, 214]"
  by code_simp

lemma sha1_node_6:
  "sha1 (encode_utf8 (node_name 6)) =
     map W8 [65, 146, 44, 1, 70, 172, 179, 80, 56, 72, 168, 200, 173, 251, 33, 126, 0, 147, 156, 214]"
  by (simp only: node_name_6 sha1_by_ints digest_node_6)

lemma default_id_6: "get_id_from_string default_config (node_name 6) = Inr ''01922c0146acb35038''"
  by (simp add: sha1_node_6 get_id_from_string_def default_config_def slice_to_def and_mask_byte
      bytes_hex_def hex_byte_def hex_digit_def)

lemma node_name_7: "node_name 7 = ''koorde-node-7''"
  by code_simp

lemma digest_node_7:
  "sha1_int (map of_char ''koorde-node-7'') =
     [142, 26, 14, 212, 179, 67, 234, 80, 119, 72, 133, 179, 247, 31, 194, 167, 111, 89, 217, 217]"
  by code_simp

lemma sha1_node_7:
  "sha1 (encode_utf8 (node_name 7)) =
     map W8 [142, 26, 14, 212, 179, 67, 234, 80, 119, 72, 133, 179, 247, 31, 194, 167, 111, 89, 217, 217]"
  by (simp only: node_name_7 sha1_by_ints digest_node_7)

lemma default_id_7: "get_id_from_string default_config (node_name 7) = Inr ''021a0ed4b343ea5077''"
  by (simp add: sha1_node_7 get_id_from_string_def default_config_def slice_to_def and_mask_byte
      bytes_hex_def hex_byte_def hex_digit_def)

lemma default_indices: "[0..<nat (NUM_NODES default_config)] = [0, 1, 2, 3, 4, 5, 6, 7]"
  by code_simp

lemma default_ids_sorted:
  "sort [''01bb881d8b5581f92d'', ''01ecb5df7a1ef4be16'', ''030ef2ddc9b1bbf0c6'', ''031ecbc24f8e7b3a97'', ''0123ddd1a5157c34d7'', ''01d38771e5e8431002'', ''01922c0146acb35038'', ''021a0ed4b343ea5077'']
     = [''0123ddd1a5157c34d7'', ''01922c0146acb35038'', ''01bb881d8b5581f92d'', ''01d38771e5e8431002'', ''01ecb5df7a1ef4be16'', ''021a0ed4b343ea5077'', ''030ef2ddc9b1bbf0c6'', ''031ecbc24f8e7b3a97'']"
  by code_simp

lemma default_derived:
  "map (\<lambda>i. get_id_from_string default_config (node_name i)) [0..<nat (NUM_NODES default_config)]
     = [Inr ''01bb881d8b5581f92d'', Inr ''01ecb5df7a1ef4be16'', Inr ''030ef2ddc9b1bbf0c6'', Inr ''031ecbc24f8e7b3a97'', Inr ''0123ddd1a5157c34d7'', Inr ''01d38771e5e8431002'', Inr ''01922c0146acb35038'', Inr ''021a0ed4b343ea5077'']"
  unfolding default_indices
  by (simp add: default_id_0 default_id_1 default_id_2 default_id_3 default_id_4 default_id_5
      default_id_6 default_id_7)

lemma default_ring:
  "get_node_ids default_config
     = Inr [''0123ddd1a5157c34d7'', ''01922c0146acb35038'', ''01bb881d8b5581f92d'', ''01d38771e5e8431002'', ''01ecb5df7a1ef4be16'', ''021a0ed4b343ea5077'', ''030ef2ddc9b1bbf0c6'', ''031ecbc24f8e7b3a97'']"
  unfolding get_node_ids_def default_indices
  by (simp add: default_id_0 default_id_1 default_id_2 default_id_3 default_id_4 default_id_5
      default_id_6 default_id_7 default_ids_sorted)

theorem get_node_ids_sorted_witness:
  "1 \<le> NUM_NODES default_config
   \<and> 1 \<le> ID_BITS default_config
   \<and> ID_BITS default_config \<le> 160
   \<and> consistent default_config
   \<and> distinct (map (\<lambda>i. get_id_from_string default_config (node_name i))
         [0..<nat (NUM_NODES default_config)])
   \<and> get_node_ids default_config =
       Inr [''0123ddd1a5157c34d7'', ''01922c0146acb35038'', ''01bb881d8b5581f92d'', ''01d38771e5e8431002'',
        ''01ecb5df7a1ef4be16'', ''021a0ed4b343ea5077'', ''030ef2ddc9b1bbf0c6'', ''031ecbc24f8e7b3a97'']
   \<and> int (length
       [''0123ddd1a5157c34d7'', ''01922c0146acb35038'', ''01bb881d8b5581f92d'', ''01d38771e5e8431002'',
        ''01ecb5df7a1ef4be16'', ''021a0ed4b343ea5077'', ''030ef2ddc9b1bbf0c6'', ''031ecbc24f8e7b3a97'']) = NUM_NODES default_config
   \<and> list_all (hex_id default_config)
       [''0123ddd1a5157c34d7'', ''01922c0146acb35038'', ''01bb881d8b5581f92d'', ''01d38771e5e8431002'',
        ''01ecb5df7a1ef4be16'', ''021a0ed4b343ea5077'', ''030ef2ddc9b1bbf0c6'', ''031ecbc24f8e7b3a97'']
   \<and> sorted_wrt int16_less
       [''0123ddd1a5157c34d7'', ''01922c0146acb35038'', ''01bb881d8b5581f92d'', ''01d38771e5e8431002'',
        ''01ecb5df7a1ef4be16'', ''021a0ed4b343ea5077'', ''030ef2ddc9b1bbf0c6'', ''031ecbc24f8e7b3a97'']"
proof -
  let ?ring = "[''0123ddd1a5157c34d7'', ''01922c0146acb35038'', ''01bb881d8b5581f92d'', ''01d38771e5e8431002'',
        ''01ecb5df7a1ef4be16'', ''021a0ed4b343ea5077'', ''030ef2ddc9b1bbf0c6'', ''031ecbc24f8e7b3a97'']"
  have h: "1 \<le> NUM_NODES default_config" "1 \<le> ID_BITS default_config"
    "ID_BITS default_config \<le> 160" "consistent default_config"
    by (simp_all add: default_config_def consistent_def)
  have d: "distinct (map (\<lambda>i. get_id_from_string default_config (node_name i))
         [0..<nat (NUM_NODES default_config)])"
    unfolding default_derived by simp
  from get_node_ids_sorted [OF h] obtain ids where
    ids: "get_node_ids default_config = Inr ids" "int (length ids) = NUM_NODES default_config"
      "list_all (hex_id default_config) ids"
      "distinct (map (\<lambda>i. get_id_from_string default_config (node_name i))
         [0..<nat (NUM_NODES default_config)]) \<longrightarrow> sorted_wrt int16_less ids"
    by blast
  from ids(1) have eq: "ids = ?ring"
    unfolding default_ring by simp
  from ids(4) d have s: "sorted_wrt int16_less ids" by (rule mp)
  show ?thesis
    using ids(2,3) s unfolding eq
    by (intro conjI h d default_ring)
qed

section \<open>Bound on identifiers\<close>

text \<open>
  Claim C3. For an identifier width \<open>ID_BITS\<close> between 1 and 160 and any input string,
  \<open>get_id_from_string\<close> returns a hexadecimal string whose integer value is below
  \<open>2 ^ ID_BITS\<close>: it is the value of the first \<open>BYTE_LEN\<close> digest bytes modulo
  \<open>2 ^ ID_BITS\<close>. When \<open>ID_BITS\<close> is a multiple of 8 the bytes are rendered unmasked;
  otherwise the first byte keeps its low \<open>8 - (BYTE_LEN * 8 - ID_BITS)\<close> bits, that is,
  its high-order \<open>BYTE_LEN * 8 - ID_BITS\<close> bits are cleared.
\<close>

theorem get_id_from_string_bound:
  assumes "1 \<le> ID_BITS c" "ID_BITS c \<le> 160" "consistent c"
  shows "\<exists>h v. get_id_from_string c s = Inr h \<and> py_int16 h = Inr v
           \<and> 0 \<le> v \<and> v < 2 ^ nat (ID_BITS c)
           \<and> v = int (be_nat (slice_to (BYTE_LEN c) (sha1 (encode_utf8 s)))) mod 2 ^ nat (ID_BITS c)
           \<and> h = bytes_hex
                 (if ID_BITS c mod 8 = 0 then slice_to (BYTE_LEN c) (sha1 (encode_utf8 s))
                  else take_bit (8 - nat (BYTE_LEN c * 8 - ID_BITS c))
                         (hd (slice_to (BYTE_LEN c) (sha1 (encode_utf8 s))))
                       # tl (slice_to (BYTE_LEN c) (sha1 (encode_utf8 s))))"
proof -
  let ?buf = "slice_to (BYTE_LEN c) (sha1 (encode_utf8 s))"
  note v = valid_byte_len [OF assms]
  have e: "BYTE_LEN c * 8 - ID_BITS c = 0 \<longleftrightarrow> ID_BITS c mod 8 = 0"
    using assms(3) unfolding consistent_def by presburger
  from get_id_valid [OF assms, of s] obtain bs where
    bs: "get_id_from_string c s = Inr (bytes_hex bs)" "length bs = nat (BYTE_LEN c)"
      "be_nat bs = be_nat ?buf mod 2 ^ nat (ID_BITS c)"
      "bs = (if BYTE_LEN c * 8 - ID_BITS c = 0 then ?buf
             else take_bit (8 - nat (BYTE_LEN c * 8 - ID_BITS c)) (hd ?buf) # tl ?buf)"
    by blast
  from bs(2) v(1) have ne: "bs \<noteq> []" by auto
  have val: "py_int16 (bytes_hex bs) = Inr (int (be_nat bs))"
    by (rule py_int16_bytes_hex [OF ne])
  have mod: "int (be_nat bs) = int (be_nat ?buf) mod 2 ^ nat (ID_BITS c)"
    unfolding bs(3) by (simp add: zmod_int)
  have bound: "int (be_nat bs) < 2 ^ nat (ID_BITS c)"
    unfolding mod by simp
  have shape: "bytes_hex bs = bytes_hex (if ID_BITS c mod 8 = 0 then ?buf
             else take_bit (8 - nat (BYTE_LEN c * 8 - ID_BITS c)) (hd ?buf) # tl ?buf)"
    using bs(4) unfolding e by (rule arg_cong)
  from bs(1) val mod bound shape show ?thesis
    by (intro exI [of _ "bytes_hex bs"] exI [of _ "int (be_nat bs)"]) simp
qed

theorem get_id_from_string_bound_witness:
  "1 \<le> ID_BITS default_config \<and> ID_BITS default_config \<le> 160 \<and> consistent default_config
   \<and> ID_BITS default_config mod 8 \<noteq> 0
   \<and> (\<exists>h v. get_id_from_string default_config ''https://example.org'' = Inr h
          \<and> py_int16 h = Inr v \<and> 0 \<le> v \<and> v < 2 ^ 66
          \<and> h = bytes_hex (take_bit 2 (hd (take 9 (sha1 (encode_utf8 ''https://example.org''))))
                            # tl (take 9 (sha1 (encode_utf8 ''https://example.org'')))))
   \<and> 1 \<le> ID_BITS \<lparr>NUM_NODES = 8, ID_BITS = 64, BYTE_LEN = 8\<rparr>
   \<and> ID_BITS \<lparr>NUM_NODES = 8, ID_BITS = 64, BYTE_LEN = 8\<rparr> \<le> 160
   \<and> consistent \<lparr>NUM_NODES = 8, ID_BITS = 64, BYTE_LEN = 8\<rparr>
   \<and> ID_BITS \<lparr>NUM_NODES = 8, ID_BITS = 64, BYTE_LEN = 8\<rparr> mod 8 = 0
   \<and> (\<exists>h v. get_id_from_string \<lparr>NUM_NODES = 8, ID_BITS = 64, BYTE_LEN = 8\<rparr> ''https://example.org'' = Inr h
          \<and> py_int16 h = Inr v \<and> 0 \<le> v \<and> v < 2 ^ 64
          \<and> h = bytes_hex (take 8 (sha1 (encode_utf8 ''https://example.org''))))"
proof -
  let ?d = "\<lparr>NUM_NODES = 8, ID_BITS = 64, BYTE_LEN = 8\<rparr>"
  have a: "1 \<le> ID_BITS default_config" "ID_BITS default_config \<le> 160" "consistent default_config"
    by (simp_all add: default_config_def consistent_def)
  have b: "1 \<le> ID_BITS ?d" "ID_BITS ?d \<le> 160" "consistent ?d"
    by (simp_all add: consistent_def)
  from get_id_from_string_bound [OF a, of "''https://example.org''"]
  have "\<exists>h v. get_id_from_string default_config ''https://example.org'' = Inr h
          \<and> py_int16 h = Inr v \<and> 0 \<le> v \<and> v < 2 ^ 66
          \<and> h = bytes_hex (take_bit 2 (hd (take 9 (sha1 (encode_utf8 ''https://example.org''))))
                            # tl (take 9 (sha1 (encode_utf8 ''https://example.org''))))"
    by (simp add: default_config_def slice_to_def)
  moreover from get_id_from_string_bound [OF b, of "''https://example.org''"]
  have "\<exists>h v. get_id_from_string ?d ''https://example.org'' = Inr h
          \<and> py_int16 h = Inr v \<and> 0 \<le> v \<and> v < 2 ^ 64
          \<and> h = bytes_hex (take 8 (sha1 (encode_utf8 ''https://example.org'')))"
    by (simp add: slice_to_def)
  ultimately show ?thesis using a b by (simp add: default_config_def)
qed

section \<open>Successor lookup\<close>

lemma any_hex_acc: "any_hex s \<Longrightarrow> \<exists>v. hex_acc acc s = Some v"
proof (induction s arbitrary: acc)
  case Nil
  show ?case by simp
next
  case (Cons c s)
  from Cons.prems obtain d where "digit_value c = Some d" and "any_hex s"
    by (auto simp: any_hex_def)
  with Cons.IH [of "16 * acc + d"] show ?case by simp
qed

lemma any_hex_int16: "any_hex s \<Longrightarrow> s \<noteq> [] \<Longrightarrow> \<exists>v. py_int16 s = Inr v"
  using any_hex_acc [of s 0] by (auto simp: py_int16_def)

lemma lower_hex_any_hex: "lower_hex s \<Longrightarrow> any_hex s"
proof -
  assume l: "lower_hex s"
  have "digit_value c \<noteq> None" if "c \<in> set s" for c
  proof -
    from l that have "c \<in> set ''0123456789abcdef''"
      unfolding lower_hex_def list_all_iff by blast
    from lower_digit_value [OF this] show ?thesis by auto
  qed
  then show ?thesis unfolding any_hex_def list_all_iff by blast
qed

lemma find_Some_set: "find P xs = Some x \<Longrightarrow> x \<in> set xs"
  by (induction xs) (auto split: if_splits)

lemma successor_scan_find:
  assumes "list_all (\<lambda>h. any_hex h \<and> h \<noteq> []) node_ids" "py_int16 key_hex = Inr key_int"
  shows "successor_scan key_int node_ids = Inr (find (int16_le key_hex) node_ids)"
  using assms(1)
proof (induction node_ids)
  case Nil
  show ?case by simp
next
  case (Cons n rest)
  from Cons.prems have "any_hex n" "n \<noteq> []" and rest: "list_all (\<lambda>h. any_hex h \<and> h \<noteq> []) rest"
    by simp_all
  then obtain v where v: "py_int16 n = Inr v"
    using any_hex_int16 by blast
  show ?case
    using v assms(2) Cons.IH [OF rest] by (simp add: int16_le_def)
qed

lemma get_responsible_node_find:
  assumes "list_all (\<lambda>h. any_hex h \<and> h \<noteq> []) node_ids" "any_hex key_hex" "key_hex \<noteq> []"
  shows "get_responsible_node key_hex node_ids =
           (case find (int16_le key_hex) node_ids of
              Some n \<Rightarrow> Inr n
            | None \<Rightarrow> (case node_ids of [] \<Rightarrow> Inl IndexError | first # _ \<Rightarrow> Inr first))"
proof -
  from any_hex_int16 [OF assms(2,3)] obtain k where k: "py_int16 key_hex = Inr k" by blast
  show ?thesis
    unfolding get_responsible_node_def
    by (simp add: k successor_scan_find [OF assms(1) k] split: option.split)
qed

lemma sorted_ring_first_least:
  assumes "valid_ring node_ids" "sorted_wrt int16_le node_ids"
  shows "list_all (int16_le (hd node_ids)) node_ids"
proof -
  from assms(1) obtain n rest where ring: "node_ids = n # rest"
    by (cases node_ids) (auto simp: valid_ring_def)
  with assms(1) have "any_hex n" "n \<noteq> []" by (simp_all add: valid_ring_def)
  then obtain v where "py_int16 n = Inr v" using any_hex_int16 by blast
  then have "int16_le n n" by (simp add: int16_le_def)
  with assms(2) show ?thesis by (simp add: ring list_all_iff)
qed

text \<open>
  Claim C1. On a non-empty ring of hexadecimal identifiers in ascending order and a
  hexadecimal key, \<open>get_responsible_node\<close> returns the first ring entry whose integer
  value is at least the key's, and the first entry of the ring, which is its smallest,
  when there is none; the result is a member of the ring. On the ring
  \<open>[0x10, 0x50, 0x90]\<close> the key \<open>0x05\<close> is owned by \<open>0x10\<close>, the key \<open>0x95\<close> wraps
  around to \<open>0x10\<close>, and the key \<open>0x50\<close> is owned by \<open>0x50\<close>.
\<close>

theorem get_responsible_node_successor:
  assumes "valid_ring node_ids" "sorted_wrt int16_le node_ids" "any_hex key_hex" "key_hex \<noteq> []"
  shows "get_responsible_node key_hex node_ids =
           Inr (case find (int16_le key_hex) node_ids of Some n \<Rightarrow> n | None \<Rightarrow> hd node_ids)
         \<and> (case find (int16_le key_hex) node_ids of Some n \<Rightarrow> n | None \<Rightarrow> hd node_ids)
             \<in> set node_ids
         \<and> list_all (int16_le (hd node_ids)) node_ids
         \<and> get_responsible_node ''05'' [''10'', ''50'', ''90''] = Inr ''10''
         \<and> get_responsible_node ''95'' [''10'', ''50'', ''90''] = Inr ''10''
         \<and> get_responsible_node ''50'' [''10'', ''50'', ''90''] = Inr ''50''"
proof -
  from assms(1) have ne: "node_ids \<noteq> []" and ok: "list_all (\<lambda>h. any_hex h \<and> h \<noteq> []) node_ids"
    by (simp_all add: valid_ring_def)
  from ne obtain first rest where ring: "node_ids = first # rest"
    by (cases node_ids) auto
  have owner: "get_responsible_node key_hex node_ids =
      Inr (case find (int16_le key_hex) node_ids of Some n \<Rightarrow> n | None \<Rightarrow> hd node_ids)"
    unfolding get_responsible_node_find [OF ok assms(3,4)]
    by (cases "find (int16_le key_hex) node_ids") (simp_all add: ring)
  have member: "(case find (int16_le key_hex) node_ids of Some n \<Rightarrow> n | None \<Rightarrow> hd node_ids)
      \<in> set node_ids"
  proof (cases "find (int16_le key_hex) node_ids")
    case None
    then show ?thesis by (simp add: ring)
  next
    case (Some n)
    then have "n \<in> set node_ids" by (rule find_Some_set)
    with Some show ?thesis by simp
  qed
  have e1: "get_responsible_node ''05'' [''10'', ''50'', ''90''] = Inr ''10''"
    by (simp add: get_responsible_node_def py_int16_def digit_value_def)
  have e2: "get_responsible_node ''95'' [''10'', ''50'', ''90''] = Inr ''10''"
    by (simp add: get_responsible_node_def py_int16_def digit_value_def)
  have e3: "get_responsible_node ''50'' [''10'', ''50'', ''90''] = Inr ''50''"
    by (simp add: get_responsible_node_def py_int16_def digit_value_def)
  show ?thesis
    by (intro conjI owner member sorted_ring_first_least [OF assms(1,2)] e1 e2 e3)
qed

theorem get_responsible_node_successor_witness:
  "valid_ring [''10'', ''50'', ''90'']
   \<and> sorted_wrt int16_le [''10'', ''50'', ''90'']
   \<and> any_hex ''95'' \<and> ''95'' \<noteq> []
   \<and> find (int16_le ''95'') [''10'', ''50'', ''90''] = None
   \<and> get_responsible_node ''95'' [''10'', ''50'', ''90''] = Inr ''10''
   \<and> any_hex ''4f'' \<and> ''4f'' \<noteq> []
   \<and> find (int16_le ''4f'') [''10'', ''50'', ''90''] = Some ''50''
   \<and> get_responsible_node ''4f'' [''10'', ''50'', ''90''] = Inr ''50''"
proof -
  have r: "valid_ring [''10'', ''50'', ''90'']" "sorted_wrt int16_le [''10'', ''50'', ''90'']"
    by (simp_all add: valid_ring_def any_hex_def int16_le_def py_int16_def digit_value_def)
  have k: "any_hex ''95''" "''95'' \<noteq> []" "any_hex ''4f''" "''4f'' \<noteq> []"
    by (simp_all add: any_hex_def digit_value_def)
  have f: "find (int16_le ''95'') [''10'', ''50'', ''90''] = None"
    "find (int16_le ''4f'') [''10'', ''50'', ''90''] = Some ''50''"
    by (simp_all add: int16_le_def py_int16_def digit_value_def)
  have g1: "get_responsible_node ''95'' [''10'', ''50'', ''90''] = Inr ''10''"
    using get_responsible_node_successor [OF r k(1,2), THEN conjunct1] unfolding f by simp
  have g2: "get_responsible_node ''4f'' [''10'', ''50'', ''90''] = Inr ''50''"
    using get_responsible_node_successor [OF r k(3,4), THEN conjunct1] unfolding f by simp
  show ?thesis
    by (intro conjI r k f g1 g2)
qed

text \<open>
  Claim C4 (as the code has it). With an empty ring and a hexadecimal key the loop body
  never runs and \<open>node_ids[0]\<close> raises the built-in \<open>IndexError\<close>; the script defines no
  \<open>ConfigurationError\<close>.
\<close>

theorem get_responsible_node_empty_ring:
  assumes "any_hex key_hex" "key_hex \<noteq> []"
  shows "get_responsible_node key_hex [] = Inl IndexError"
  using get_responsible_node_find [of "[]" key_hex] assms by simp

theorem get_responsible_node_empty_ring_witness:
  "any_hex ''ff'' \<and> ''ff'' \<noteq> [] \<and> get_responsible_node ''ff'' [] = Inl IndexError"
proof -
  have k: "any_hex ''ff''" "''ff'' \<noteq> []"
    by (simp_all add: any_hex_def digit_value_def)
  from get_responsible_node_empty_ring [OF k] k show ?thesis by simp
qed

theorem get_responsible_node_empty_ring_counterexample:
  "get_responsible_node ''05'' [] = Inl IndexError
   \<and> get_responsible_node ''05'' [] \<noteq> Inl ConfigurationError"
  by (simp add: get_responsible_node_def py_int16_def digit_value_def)

section \<open>The verification batch\<close>

lemma compare_response_unverifiable:
  assumes "unverifiable r"
  shows "compare_response c url expected r t =
           t\<lparr>printed := printed t @
                [(url, case r of RequestException \<Rightarrow> RequestFailed
                       | Response status_code _ \<Rightarrow> FailedStatus status_code)]\<rparr>"
  using assms by (cases r) (simp_all add: compare_response_def unverifiable_def)

lemma compare_response_counts:
  "(total_count (compare_response c url expected r t) = total_count t
      \<and> match_count (compare_response c url expected r t) = match_count t)
   \<or> (total_count (compare_response c url expected r t) = total_count t + 1
      \<and> (match_count (compare_response c url expected r t) = match_count t
          \<or> match_count (compare_response c url expected r t) = match_count t + 1))"
  by (cases r) (simp_all add: compare_response_def Let_def)

lemma expected_defined:
  assumes "valid_config c" "valid_ring node_ids"
  shows "\<exists>key_hex expected. get_id_from_string c url = Inr key_hex
           \<and> get_responsible_node key_hex node_ids = Inr expected \<and> expected \<in> set node_ids"
proof -
  from assms(1) have v: "1 \<le> ID_BITS c" "ID_BITS c \<le> 160" "consistent c"
    by (simp_all add: valid_config_def)
  from get_id_shape [OF v, of url] obtain key_hex where
    key: "get_id_from_string c url = Inr key_hex" "hex_id c key_hex" "key_hex \<noteq> []"
    by blast
  from key(2) have hex: "any_hex key_hex"
    by (simp add: hex_id_def lower_hex_any_hex)
  from assms(2) obtain first rest where ring: "node_ids = first # rest"
    by (cases node_ids) (auto simp: valid_ring_def)
  from assms(2) have ok: "list_all (\<lambda>h. any_hex h \<and> h \<noteq> []) node_ids"
    by (simp add: valid_ring_def)
  show ?thesis
  proof (cases "find (int16_le key_hex) node_ids")
    case None
    then have "get_responsible_node key_hex node_ids = Inr first"
      unfolding get_responsible_node_find [OF ok hex key(3)] by (simp add: ring)
    with key(1) ring show ?thesis by simp
  next
    case (Some n)
    then have "get_responsible_node key_hex node_ids = Inr n"
      unfolding get_responsible_node_find [OF ok hex key(3)] by simp
    moreover from Some have "n \<in> set node_ids" by (rule find_Some_set)
    ultimately show ?thesis using key(1) by simp
  qed
qed

lemma routing_loop_step:
  assumes "get_id_from_string c url = Inr key_hex" "get_responsible_node key_hex node_ids = Inr expected"
  shows "routing_loop c node_ids ((url, r) # rest) t =
           routing_loop c node_ids rest (compare_response c url expected r t)"
  using assms by simp


lemma routing_loop_total:
  assumes "valid_config c" "valid_ring node_ids"
  shows "\<exists>t'. routing_loop c node_ids xs t = Inr t'"
proof (induction xs arbitrary: t)
  case Nil
  show ?case by simp
next
  case (Cons x xs)
  obtain url r where x: "x = (url, r)" by (cases x)
  from expected_defined [OF assms, of url] obtain key_hex expected where
    "get_id_from_string c url = Inr key_hex" "get_responsible_node key_hex node_ids = Inr expected"
    by blast
  then show ?case
    unfolding x using Cons.IH [of "compare_response c url expected r t"] by simp
qed

lemma routing_loop_invariant:
  assumes "routing_loop c node_ids xs t = Inr t'" "0 \<le> match_count t" "match_count t \<le> total_count t"
  shows "0 \<le> match_count t' \<and> match_count t' \<le> total_count t'
           \<and> total_count t' \<le> total_count t + int (length xs)"
  using assms
proof (induction c node_ids xs t rule: routing_loop.induct)
  case (1 c node_ids t)
  then show ?case by simp
next
  case (2 c node_ids url r rest t)
  from "2.prems"(1) obtain key_hex expected where
    k: "get_id_from_string c url = Inr key_hex"
      "get_responsible_node key_hex node_ids = Inr expected"
    by (auto split: sum.splits)
  let ?t = "compare_response c url expected r t"
  from "2.prems"(1) k have run: "routing_loop c node_ids rest ?t = Inr t'" by simp
  from compare_response_counts [of c url expected r t] "2.prems"(2,3)
  have inv: "0 \<le> match_count ?t" "match_count ?t \<le> total_count ?t"
    and step: "total_count ?t \<le> total_count t + 1"
    by auto
  from "2.IH" [OF k(1) k(2) run inv] step show ?case by simp
qed



lemma get_node_ids_ring:
  assumes "valid_config c" "1 \<le> NUM_NODES c"
  shows "\<exists>ids. get_node_ids c = Inr ids \<and> valid_ring ids"
proof -
  from assms(1) have v: "1 \<le> ID_BITS c" "ID_BITS c \<le> 160" "consistent c"
    by (simp_all add: valid_config_def)
  from get_node_ids_valid [OF v] obtain hs where
    hs: "get_node_ids c = Inr (sort hs)"
      "map Inr hs = map (\<lambda>i. get_id_from_string c (node_name i)) [0..<nat (NUM_NODES c)]"
      "list_all (\<lambda>h. hex_id c h \<and> h \<noteq> []) hs"
    by blast
  have "length hs = length (map Inr hs :: (py_error + string) list)" by simp
  also have "\<dots> = nat (NUM_NODES c)" unfolding hs(2) by simp
  finally have "hs \<noteq> []" using assms(2) by auto
  then have ne: "sort hs \<noteq> []"
    by (metis length_sort length_0_conv)
  have "any_hex h \<and> h \<noteq> []" if "h \<in> set (sort hs)" for h
  proof -
    from that hs(3) have "hex_id c h" "h \<noteq> []" by (simp_all add: list_all_iff)
    then show ?thesis by (simp add: hex_id_def lower_hex_any_hex)
  qed
  then have "list_all (\<lambda>h. any_hex h \<and> h \<noteq> []) (sort hs)"
    unfolding list_all_iff by blast
  with ne hs(1) show ?thesis by (simp add: valid_ring_def)
qed

lemma routing_loop_all_unverifiable:
  assumes "valid_config c" "valid_ring node_ids" "list_all (\<lambda>x. unverifiable (snd x)) xs"
  shows "counts_of (routing_loop c node_ids xs t) = Inr (match_count t, total_count t)"
  using assms(3)
proof (induction xs arbitrary: t)
  case Nil
  show ?case by (simp add: counts_of_def)
next
  case (Cons x xs)
  obtain url r where x: "x = (url, r)" by (cases x)
  with Cons.prems have r: "unverifiable r" and rest: "list_all (\<lambda>x. unverifiable (snd x)) xs"
    by simp_all
  from expected_defined [OF assms(1,2), of url] obtain key_hex expected where
    k: "get_id_from_string c url = Inr key_hex"
      "get_responsible_node key_hex node_ids = Inr expected"
    by blast
  from Cons.IH [OF rest, of "compare_response c url expected r t"] k show ?case
    by (simp add: x compare_response_unverifiable [OF r])
qed

lemma test_routing_invariant:
  assumes "test_routing f web = Inr t'"
  shows "0 \<le> match_count t' \<and> match_count t' \<le> total_count t' \<and> total_count t' \<le> 8"
proof -
  from assms obtain c node_ids where
    run: "routing_loop c node_ids (zip urls (map web [0..<length urls])) empty_tally = Inr t'"
    by (auto simp: test_routing_def split: sum.splits)
  have "length urls = 8" by (simp add: urls_def)
  with routing_loop_invariant [OF run] show ?thesis
    by (simp add: empty_tally_def)
qed



text \<open>
  Claim C10. In every run of the batch the counters satisfy
  \<open>0 \<le> match_count \<le> total_count\<close> after each URL: a URL leaves both counters alone or
  adds 1 to \<open>total_count\<close>, and \<open>match_count\<close> grows by 1 only together with
  \<open>total_count\<close>. With a valid configuration and ring the loop reaches the end of every
  prefix of the batch. A batch in which every request is unverifiable ends with the
  counters it started with, \<open>0/0\<close> from the empty tally, and every run of \<open>test_routing\<close>
  that reaches its summary prints counters with \<open>0 \<le> match_count \<le> total_count \<le> 8\<close>.
\<close>

theorem counters_invariant:
  assumes "valid_config c" "valid_ring node_ids" "0 \<le> match_count t" "match_count t \<le> total_count t"
  shows "(\<exists>t'. routing_loop c node_ids (take k batch) t = Inr t'
            \<and> 0 \<le> match_count t' \<and> match_count t' \<le> total_count t'
            \<and> total_count t' \<le> total_count t + int k)
       \<and> ((total_count (compare_response c url expected r t) = total_count t
              \<and> match_count (compare_response c url expected r t) = match_count t)
            \<or> (total_count (compare_response c url expected r t) = total_count t + 1
              \<and> (match_count (compare_response c url expected r t) = match_count t
                  \<or> match_count (compare_response c url expected r t) = match_count t + 1)))
       \<and> counts_of (routing_loop c node_ids (filter (\<lambda>x. unverifiable (snd x)) batch) t)
           = Inr (match_count t, total_count t)
       \<and> (case test_routing f web of
             Inl e \<Rightarrow> True
           | Inr t' \<Rightarrow> 0 \<le> match_count t' \<and> match_count t' \<le> total_count t' \<and> total_count t' \<le> 8)"
proof -
  from routing_loop_total [OF assms(1,2), of "take k batch" t] obtain t' where
    run: "routing_loop c node_ids (take k batch) t = Inr t'" by blast
  have "int (length (take k batch)) \<le> int k" by simp
  with routing_loop_invariant [OF run assms(3,4)]
  have "0 \<le> match_count t' \<and> match_count t' \<le> total_count t'
          \<and> total_count t' \<le> total_count t + int k"
    by linarith
  with run have loop: "\<exists>t'. routing_loop c node_ids (take k batch) t = Inr t'
            \<and> 0 \<le> match_count t' \<and> match_count t' \<le> total_count t'
            \<and> total_count t' \<le> total_count t + int k"
    by blast
  have none: "counts_of (routing_loop c node_ids (filter (\<lambda>x. unverifiable (snd x)) batch) t)
           = Inr (match_count t, total_count t)"
    by (rule routing_loop_all_unverifiable [OF assms(1,2)]) (simp add: list_all_iff)
  have whole: "case test_routing f web of
             Inl e \<Rightarrow> True
           | Inr t' \<Rightarrow> 0 \<le> match_count t' \<and> match_count t' \<le> total_count t' \<and> total_count t' \<le> 8"
    using test_routing_invariant [of f web] by (cases "test_routing f web") simp_all
  show ?thesis
    by (intro conjI loop compare_response_counts none whole)
qed

theorem counters_invariant_witness:
  "valid_config \<lparr>NUM_NODES = 3, ID_BITS = 8, BYTE_LEN = 1\<rparr>
   \<and> valid_ring [''10'', ''50'', ''90'']
   \<and> 0 \<le> match_count empty_tally
   \<and> match_count empty_tally \<le> total_count empty_tally
   \<and> (\<exists>t'. routing_loop \<lparr>NUM_NODES = 3, ID_BITS = 8, BYTE_LEN = 1\<rparr> [''10'', ''50'', ''90'']
              (take 2 [(''https://example.org'', Response 200 (Some ''0x50'')),
                       (''https://neverssl.com'', Response 500 None),
                       (''https://httpbin.org/uuid'', RequestException)]) empty_tally = Inr t'
          \<and> 0 \<le> match_count t' \<and> match_count t' \<le> total_count t' \<and> total_count t' \<le> 2)"
proof -
  let ?c = "\<lparr>NUM_NODES = 3, ID_BITS = 8, BYTE_LEN = 1\<rparr>"
  let ?ring = "[''10'', ''50'', ''90'']"
  have c: "valid_config ?c" by (simp add: valid_config_def consistent_def)
  have ring: "valid_ring ?ring" by (simp add: valid_ring_def any_hex_def digit_value_def)
  have t: "0 \<le> match_count empty_tally" "match_count empty_tally \<le> total_count empty_tally"
    by (simp_all add: empty_tally_def)
  from counters_invariant [OF c ring t, THEN conjunct1, of 2]
  have "\<exists>t'. routing_loop ?c ?ring
              (take 2 [(''https://example.org'', Response 200 (Some ''0x50'')),
                       (''https://neverssl.com'', Response 500 None),
                       (''https://httpbin.org/uuid'', RequestException)]) empty_tally = Inr t'
          \<and> 0 \<le> match_count t' \<and> match_count t' \<le> total_count t' \<and> total_count t' \<le> 2"
    by (simp only: empty_tally_def tally.simps add_0 of_nat_numeral)
  with c ring t show ?thesis by (intro conjI)
qed

text \<open>
  Claim C9. When the configuration file is absent \<open>load_config\<close> returns without touching
  the globals: they stay at the defaults \<open>NUM_NODES = 8\<close>, \<open>ID_BITS = 66\<close> and
  \<open>BYTE_LEN = (66 + 7) // 8 = 9\<close>, and the run goes through to its summary without an
  exception, whatever the requests do.
\<close>

theorem load_config_absent:
  "load_config Absent c = Inr c
   \<and> load_config Absent default_config = Inr default_config
   \<and> NUM_NODES default_config = 8
   \<and> ID_BITS default_config = 66
   \<and> BYTE_LEN default_config = 9
   \<and> BYTE_LEN default_config = (ID_BITS default_config + 7) div 8
   \<and> (\<exists>t. test_routing Absent web = Inr t)"
proof -
  have c: "valid_config default_config" "1 \<le> NUM_NODES default_config"
    by (simp_all add: valid_config_def consistent_def default_config_def)
  from get_node_ids_ring [OF c] obtain ids where
    ids: "get_node_ids default_config = Inr ids" "valid_ring ids" by blast
  from routing_loop_total [OF c(1) ids(2)] obtain t where
    "routing_loop default_config ids (zip urls (map web [0..<length urls])) empty_tally = Inr t"
    by blast
  with ids(1) have "test_routing Absent web = Inr t"
    by (simp add: test_routing_def load_config_def)
  then have run: "\<exists>t. test_routing Absent web = Inr t" ..
  have frame: "load_config Absent c = Inr c" "load_config Absent default_config = Inr default_config"
    by (simp_all add: load_config_def)
  have vals: "NUM_NODES default_config = 8" "ID_BITS default_config = 66"
    "BYTE_LEN default_config = 9" "BYTE_LEN default_config = (ID_BITS default_config + 7) div 8"
    by (simp_all add: default_config_def)
  show ?thesis by (intro conjI frame vals run)
qed

section \<open>Header normalisation\<close>

lemma zfill_empty: "zfill width [] = replicate (nat width) (CHR ''0'')"
  by (simp add: zfill_def)

lemma compare_response_200:
  "compare_response c url expected (Response 200 header) t =
     (if zfill (BYTE_LEN c * 2) (replace_0x (case header of None \<Rightarrow> [] | Some v \<Rightarrow> v)) = expected
      then t\<lparr>match_count := match_count t + 1, total_count := total_count t + 1,
             printed := printed t @ [(url, MATCH)]\<rparr>
      else t\<lparr>total_count := total_count t + 1, printed := printed t @ [(url, MISMATCH)]\<rparr>)"
  by (simp add: compare_response_def Let_def)

lemma lower_hex_no_x: "lower_hex s \<Longrightarrow> CHR ''x'' \<notin> set s"
proof
  assume "lower_hex s" "CHR ''x'' \<in> set s"
  then have "CHR ''x'' \<in> set ''0123456789abcdef''"
    unfolding lower_hex_def list_all_iff by (rule bspec)
  then show False by simp
qed

lemma replace_0x_id: "CHR ''x'' \<notin> set s \<Longrightarrow> replace_0x s = s"
  by (induction s rule: replace_0x.induct) auto

lemma replace_0x_prefix: "replace_0x (''0x'' @ s) = replace_0x s"
  by simp

lemma zfill_lower_hex:
  assumes "lower_hex s" "int (length s) \<le> width"
  shows "zfill width s = replicate (nat width - length s) (CHR ''0'') @ s"
proof (cases s)
  case Nil
  then show ?thesis by (simp add: zfill_empty)
next
  case (Cons d r)
  with assms(1) have d: "d \<in> set ''0123456789abcdef''" by (simp only: lower_hex_Cons)
  have sign: "d \<noteq> CHR ''+''" "d \<noteq> CHR ''-''"
  proof -
    show "d \<noteq> CHR ''+''"
    proof
      assume "d = CHR ''+''"
      with d show False by simp
    qed
    show "d \<noteq> CHR ''-''"
    proof
      assume "d = CHR ''-''"
      with d show False by simp
    qed
  qed
  show ?thesis
  proof (cases "width \<le> int (length s)")
    case True
    with assms(2) have "nat width - length s = 0" by simp
    with True show ?thesis by (simp add: zfill_def)
  next
    case False
    with sign show ?thesis
      by (simp add: zfill_def Let_def Cons)
  qed
qed

lemma hex_acc_leading_zeros: "hex_acc 0 (replicate k (CHR ''0'') @ s) = hex_acc 0 s"
  by (induction k) (simp_all add: digit_value_def)

lemma lower_hex_zeros: "lower_hex s \<Longrightarrow> lower_hex (replicate k (CHR ''0'') @ s)"
  by (induction k) (simp_all add: lower_hex_Cons)

lemma padded_equals_expected:
  assumes "lower_hex digits" "int (length digits) \<le> 2 * BYTE_LEN c" "hex_id c expected"
    and "int16_eq digits expected"
  shows "replicate (nat (BYTE_LEN c * 2) - length digits) (CHR ''0'') @ digits = expected"
proof -
  let ?p = "replicate (nat (BYTE_LEN c * 2) - length digits) (CHR ''0'') @ digits"
  from assms(3) have e: "lower_hex expected" "int (length expected) = 2 * BYTE_LEN c"
    by (simp_all add: hex_id_def)
  from assms(4) obtain v where v: "py_int16 digits = Inr v" "py_int16 expected = Inr v"
    by (auto simp: int16_eq_def split: sum.splits)
  then obtain n where n: "hex_acc 0 digits = Some n" "hex_acc 0 expected = Some n"
    by (auto simp: py_int16_def split: if_splits option.splits)
  have len: "length ?p = length expected"
    using assms(2) e(2) by simp
  have val: "hex_acc 0 ?p = Some n"
    by (simp only: hex_acc_leading_zeros n(1))
  from lex_order_is_numeric [OF len lower_hex_zeros [OF assms(1)] e(1) val n(2)]
  show ?thesis by simp
qed

lemma normalised_header_matches:
  assumes "lower_hex digits" "int (length digits) \<le> 2 * BYTE_LEN c"
    and "hex_id c expected" "int16_eq digits expected"
    and "header = digits \<or> header = ''0x'' @ digits"
  shows "zfill (BYTE_LEN c * 2) (replace_0x header)
           = replicate (nat (BYTE_LEN c * 2) - length digits) (CHR ''0'') @ digits
       \<and> zfill (BYTE_LEN c * 2) (replace_0x header) = expected
       \<and> compare_response c url expected (Response 200 (Some header)) t
           = t\<lparr>match_count := match_count t + 1, total_count := total_count t + 1,
                printed := printed t @ [(url, MATCH)]\<rparr>"
proof -
  have "replace_0x digits = digits"
    by (rule replace_0x_id [OF lower_hex_no_x [OF assms(1)]])
  with assms(5) have strip: "replace_0x header = digits"
    by (auto simp only: replace_0x_prefix)
  from assms(2) have w: "int (length digits) \<le> BYTE_LEN c * 2" by simp
  have pad: "zfill (BYTE_LEN c * 2) (replace_0x header)
           = replicate (nat (BYTE_LEN c * 2) - length digits) (CHR ''0'') @ digits"
    unfolding strip by (rule zfill_lower_hex [OF assms(1) w])
  have eq: "zfill (BYTE_LEN c * 2) (replace_0x header) = expected"
    unfolding pad by (rule padded_equals_expected [OF assms(1-4)])
  have cmp: "compare_response c url expected (Response 200 (Some header)) t
           = t\<lparr>match_count := match_count t + 1, total_count := total_count t + 1,
                printed := printed t @ [(url, MATCH)]\<rparr>"
    unfolding compare_response_200 using eq by simp
  show ?thesis by (intro conjI pad eq cmp)
qed

lemma ring_member_hex_id:
  assumes "valid_config c" "get_node_ids c = Inr node_ids" "expected \<in> set node_ids"
  shows "hex_id c expected"
proof -
  from assms(1) have v: "1 \<le> ID_BITS c" "ID_BITS c \<le> 160" "consistent c"
    by (simp_all add: valid_config_def)
  from get_node_ids_valid [OF v] assms(2) obtain hs where
    "node_ids = sort hs" "list_all (\<lambda>h. hex_id c h \<and> h \<noteq> []) hs"
    by auto
  with assms(3) show ?thesis by (simp add: list_all_iff)
qed

text \<open>
  Claim C7 (as the code has it). At an identifier width \<open>ID_BITS\<close> between 1 and 160,
  where every identifier of the ring built by \<open>get_node_ids\<close> has exactly \<open>2 * BYTE_LEN\<close>
  lowercase hexadecimal digits: a header made of at most \<open>2 * BYTE_LEN\<close> lowercase
  hexadecimal digits, with or without the prefix \<open>0x\<close>, is normalised by removing the
  prefix and padding with \<open>0\<close> on the left to \<open>2 * BYTE_LEN\<close> characters; when its
  integer value is that of the expected identifier, a member of the ring, the normalised
  string is the expected identifier and the comparison reports a match. The comparison
  is one of strings: uppercase digits are not folded to lowercase, and at a width above
  160 bits the identifiers are shorter than the padded header.
\<close>

theorem header_normalisation:
  assumes "valid_config c" "get_node_ids c = Inr node_ids" "expected \<in> set node_ids"
    and "lower_hex digits" "int (length digits) \<le> 2 * BYTE_LEN c"
    and "int16_eq digits expected"
    and "header = digits \<or> header = ''0x'' @ digits"
  shows "zfill (BYTE_LEN c * 2) (replace_0x header)
           = replicate (nat (BYTE_LEN c * 2) - length digits) (CHR ''0'') @ digits
       \<and> zfill (BYTE_LEN c * 2) (replace_0x header) = expected
       \<and> compare_response c url expected (Response 200 (Some header)) t
           = t\<lparr>match_count := match_count t + 1, total_count := total_count t + 1,
                printed := printed t @ [(url, MATCH)]\<rparr>"
  by (rule normalised_header_matches
      [OF assms(4,5) ring_member_hex_id [OF assms(1-3)] assms(6,7)])

theorem header_normalisation_witness:
  "valid_config default_config
   \<and> get_node_ids default_config =
       Inr [''0123ddd1a5157c34d7'', ''01922c0146acb35038'', ''01bb881d8b5581f92d'', ''01d38771e5e8431002'',
        ''01ecb5df7a1ef4be16'', ''021a0ed4b343ea5077'', ''030ef2ddc9b1bbf0c6'', ''031ecbc24f8e7b3a97'']
   \<and> ''030ef2ddc9b1bbf0c6'' \<in> set
       [''0123ddd1a5157c34d7'', ''01922c0146acb35038'', ''01bb881d8b5581f92d'', ''01d38771e5e8431002'',
        ''01ecb5df7a1ef4be16'', ''021a0ed4b343ea5077'', ''030ef2ddc9b1bbf0c6'', ''031ecbc24f8e7b3a97'']
   \<and> lower_hex ''30ef2ddc9b1bbf0c6''
   \<and> int (length ''30ef2ddc9b1bbf0c6'') \<le> 2 * BYTE_LEN default_config
   \<and> int16_eq ''30ef2ddc9b1bbf0c6'' ''030ef2ddc9b1bbf0c6''
   \<and> zfill (BYTE_LEN default_config * 2) (replace_0x ''0x30ef2ddc9b1bbf0c6'') = ''030ef2ddc9b1bbf0c6''
   \<and> printed (compare_response default_config ''https://httpbin.org/get'' ''030ef2ddc9b1bbf0c6''
        (Response 200 (Some ''0x30ef2ddc9b1bbf0c6'')) empty_tally)
       = [(''https://httpbin.org/get'', MATCH)]"
proof -
  have v: "valid_config default_config"
    by (simp add: valid_config_def consistent_def default_config_def)
  have m: "''030ef2ddc9b1bbf0c6'' \<in> set
       [''0123ddd1a5157c34d7'', ''01922c0146acb35038'', ''01bb881d8b5581f92d'', ''01d38771e5e8431002'',
        ''01ecb5df7a1ef4be16'', ''021a0ed4b343ea5077'', ''030ef2ddc9b1bbf0c6'', ''031ecbc24f8e7b3a97'']"
    by simp
  have a: "lower_hex ''30ef2ddc9b1bbf0c6''"
    by (simp add: lower_hex_def)
  have b: "int (length ''30ef2ddc9b1bbf0c6'') \<le> 2 * BYTE_LEN default_config"
    by (simp add: default_config_def)
  have d: "int16_eq ''30ef2ddc9b1bbf0c6'' ''030ef2ddc9b1bbf0c6''"
    by (simp add: int16_eq_def py_int16_def digit_value_def)
  have e: "''0x30ef2ddc9b1bbf0c6'' = ''30ef2ddc9b1bbf0c6'' \<or> ''0x30ef2ddc9b1bbf0c6'' = ''0x'' @ ''30ef2ddc9b1bbf0c6''"
    by simp
  note n = header_normalisation [OF v default_ring m a b d e, of "''https://httpbin.org/get''" empty_tally]
  from n have z: "zfill (BYTE_LEN default_config * 2) (replace_0x ''0x30ef2ddc9b1bbf0c6'') = ''030ef2ddc9b1bbf0c6''"
    by (elim conjE)
  from n have "compare_response default_config ''https://httpbin.org/get'' ''030ef2ddc9b1bbf0c6''
        (Response 200 (Some ''0x30ef2ddc9b1bbf0c6'')) empty_tally
       = empty_tally\<lparr>match_count := match_count empty_tally + 1, total_count := total_count empty_tally + 1,
                printed := printed empty_tally @ [(''https://httpbin.org/get'', MATCH)]\<rparr>"
    by (elim conjE)
  then have p: "printed (compare_response default_config ''https://httpbin.org/get'' ''030ef2ddc9b1bbf0c6''
        (Response 200 (Some ''0x30ef2ddc9b1bbf0c6'')) empty_tally)
       = [(''https://httpbin.org/get'', MATCH)]"
    by (simp add: empty_tally_def)
  show ?thesis by (intro conjI v default_ring m a b d z p)
qed

text \<open>
  The ring of one node at a width of 168 bits, a configuration \<open>load_config\<close> accepts:
  the digest has only 20 bytes, so the identifier has 40 digits where \<open>2 * BYTE_LEN\<close>
  is 42.
\<close>

lemma wide_config:
  "load_config (Loaded (IntOf 1) (IntOf 168)) default_config
     = Inr \<lparr>NUM_NODES = 1, ID_BITS = 168, BYTE_LEN = 21\<rparr>"
  by (simp add: load_config_def default_config_def)

lemma wide_ring:
  "get_node_ids \<lparr>NUM_NODES = 1, ID_BITS = 168, BYTE_LEN = 21\<rparr>
     = Inr [''59bb881d8b5581f92dbe66b424e851528e8803f9'']"
  by (simp add: get_node_ids_def sha1_node_0 get_id_from_string_def slice_to_def
      bytes_hex_def hex_byte_def hex_digit_def)

theorem header_normalisation_counterexample:
  "any_hex ''030EF2DDC9B1BBF0C6''
   \<and> int16_eq ''030EF2DDC9B1BBF0C6'' ''030ef2ddc9b1bbf0c6''
   \<and> zfill (BYTE_LEN default_config * 2) (replace_0x ''0x030EF2DDC9B1BBF0C6'') = ''030EF2DDC9B1BBF0C6''
   \<and> printed (compare_response default_config ''https://httpbin.org/get'' ''030ef2ddc9b1bbf0c6''
        (Response 200 (Some ''0x030EF2DDC9B1BBF0C6'')) empty_tally)
       = [(''https://httpbin.org/get'', MISMATCH)]
   \<and> load_config (Loaded (IntOf 1) (IntOf 168)) default_config
       = Inr \<lparr>NUM_NODES = 1, ID_BITS = 168, BYTE_LEN = 21\<rparr>
   \<and> get_node_ids \<lparr>NUM_NODES = 1, ID_BITS = 168, BYTE_LEN = 21\<rparr>
       = Inr [''59bb881d8b5581f92dbe66b424e851528e8803f9'']
   \<and> lower_hex ''59bb881d8b5581f92dbe66b424e851528e8803f9''
   \<and> int16_eq ''59bb881d8b5581f92dbe66b424e851528e8803f9'' ''59bb881d8b5581f92dbe66b424e851528e8803f9''
   \<and> printed (compare_response \<lparr>NUM_NODES = 1, ID_BITS = 168, BYTE_LEN = 21\<rparr>
        ''https://httpbin.org/get'' ''59bb881d8b5581f92dbe66b424e851528e8803f9''
        (Response 200 (Some ''0x59bb881d8b5581f92dbe66b424e851528e8803f9'')) empty_tally)
       = [(''https://httpbin.org/get'', MISMATCH)]"
proof -
  have a: "any_hex ''030EF2DDC9B1BBF0C6''"
    by (simp add: any_hex_def digit_value_def)
  have b: "int16_eq ''030EF2DDC9B1BBF0C6'' ''030ef2ddc9b1bbf0c6''"
    by (simp add: int16_eq_def py_int16_def digit_value_def)
  have r: "replace_0x ''0x030EF2DDC9B1BBF0C6'' = ''030EF2DDC9B1BBF0C6''"
    by simp
  have z: "zfill (BYTE_LEN default_config * 2) ''030EF2DDC9B1BBF0C6'' = ''030EF2DDC9B1BBF0C6''"
    by (simp add: zfill_def default_config_def)
  have c: "zfill (BYTE_LEN default_config * 2) (replace_0x ''0x030EF2DDC9B1BBF0C6'') = ''030EF2DDC9B1BBF0C6''"
    unfolding r by (rule z)
  have ne: "''030EF2DDC9B1BBF0C6'' \<noteq> ''030ef2ddc9b1bbf0c6''"
    by simp
  have d: "printed (compare_response default_config ''https://httpbin.org/get'' ''030ef2ddc9b1bbf0c6''
        (Response 200 (Some ''0x030EF2DDC9B1BBF0C6'')) empty_tally)
       = [(''https://httpbin.org/get'', MISMATCH)]"
    unfolding compare_response_200 option.case c using ne by (simp add: empty_tally_def)
  have l: "lower_hex ''59bb881d8b5581f92dbe66b424e851528e8803f9''"
    by (simp add: lower_hex_def)
  have q: "int16_eq ''59bb881d8b5581f92dbe66b424e851528e8803f9'' ''59bb881d8b5581f92dbe66b424e851528e8803f9''"
    by (simp add: int16_eq_def py_int16_def digit_value_def)
  have r2: "replace_0x ''0x59bb881d8b5581f92dbe66b424e851528e8803f9'' = ''59bb881d8b5581f92dbe66b424e851528e8803f9''"
    by simp
  have z2: "zfill (BYTE_LEN \<lparr>NUM_NODES = 1, ID_BITS = 168, BYTE_LEN = 21\<rparr> * 2)
        ''59bb881d8b5581f92dbe66b424e851528e8803f9'' = ''0059bb881d8b5581f92dbe66b424e851528e8803f9''"
    by (simp add: zfill_def eval_nat_numeral)
  have w: "printed (compare_response \<lparr>NUM_NODES = 1, ID_BITS = 168, BYTE_LEN = 21\<rparr>
        ''https://httpbin.org/get'' ''59bb881d8b5581f92dbe66b424e851528e8803f9''
        (Response 200 (Some ''0x59bb881d8b5581f92dbe66b424e851528e8803f9'')) empty_tally)
       = [(''https://httpbin.org/get'', MISMATCH)]"
    unfolding compare_response_200 option.case r2 z2 by (simp add: empty_tally_def)
  show ?thesis by (intro conjI a b c d wide_config wide_ring l q w)
qed

section \<open>Responses with status 200\<close>

text \<open>
  Claim C5 (as the code has it). A response with status 200 is always compared: a
  missing \<open>X-Node-ID\<close> header is read as the empty string and normalised to
  \<open>2 * BYTE_LEN\<close> zeros, a malformed one is normalised and compared as it is. The URL
  adds 1 to \<open>total_count\<close>, is reported as a match when the normalised text equals the
  expected identifier and as a mismatch otherwise, and the loop goes on with the next
  URL.
\<close>

theorem status_200_is_compared:
  assumes "valid_config c" "valid_ring node_ids"
  shows "(\<exists>key_hex expected.
            get_id_from_string c url = Inr key_hex
          \<and> get_responsible_node key_hex node_ids = Inr expected
          \<and> expected \<in> set node_ids
          \<and> routing_loop c node_ids ((url, Response 200 header) # rest) t =
               routing_loop c node_ids rest (compare_response c url expected (Response 200 header) t))
       \<and> total_count (compare_response c url e (Response 200 header) t) = total_count t + 1
       \<and> match_count (compare_response c url e (Response 200 header) t) =
           match_count t +
            (if zfill (BYTE_LEN c * 2) (replace_0x (case header of None \<Rightarrow> [] | Some v \<Rightarrow> v)) = e
             then 1 else 0)
       \<and> printed (compare_response c url e (Response 200 header) t) =
           printed t @
            [(url, if zfill (BYTE_LEN c * 2) (replace_0x (case header of None \<Rightarrow> [] | Some v \<Rightarrow> v)) = e
                   then MATCH else MISMATCH)]
       \<and> zfill (BYTE_LEN c * 2) (replace_0x []) = replicate (nat (BYTE_LEN c * 2)) (CHR ''0'')"
proof -
  from expected_defined [OF assms, of url] obtain key_hex expected where
    k: "get_id_from_string c url = Inr key_hex"
      "get_responsible_node key_hex node_ids = Inr expected" "expected \<in> set node_ids"
    by blast
  then have first: "\<exists>key_hex expected.
            get_id_from_string c url = Inr key_hex
          \<and> get_responsible_node key_hex node_ids = Inr expected
          \<and> expected \<in> set node_ids
          \<and> routing_loop c node_ids ((url, Response 200 header) # rest) t =
               routing_loop c node_ids rest (compare_response c url expected (Response 200 header) t)"
    by (intro exI [of _ key_hex] exI [of _ expected]) simp
  have total: "total_count (compare_response c url e (Response 200 header) t) = total_count t + 1"
    by (simp add: compare_response_200)
  have match: "match_count (compare_response c url e (Response 200 header) t) =
           match_count t +
            (if zfill (BYTE_LEN c * 2) (replace_0x (case header of None \<Rightarrow> [] | Some v \<Rightarrow> v)) = e
             then 1 else 0)"
    by (simp add: compare_response_200)
  have verdict: "printed (compare_response c url e (Response 200 header) t) =
           printed t @
            [(url, if zfill (BYTE_LEN c * 2) (replace_0x (case header of None \<Rightarrow> [] | Some v \<Rightarrow> v)) = e
                   then MATCH else MISMATCH)]"
    by (simp add: compare_response_200)
  have zeros: "zfill (BYTE_LEN c * 2) (replace_0x []) = replicate (nat (BYTE_LEN c * 2)) (CHR ''0'')"
    by (simp add: zfill_empty)
  show ?thesis by (intro conjI first total match verdict zeros)
qed

theorem status_200_is_compared_witness:
  "valid_config \<lparr>NUM_NODES = 3, ID_BITS = 8, BYTE_LEN = 1\<rparr>
   \<and> valid_ring [''10'', ''50'', ''90'']
   \<and> counts_of (routing_loop \<lparr>NUM_NODES = 3, ID_BITS = 8, BYTE_LEN = 1\<rparr> [''10'', ''50'', ''90'']
        [(''https://example.org'', Response 200 None)] empty_tally) = Inr (0, 1)"
proof -
  let ?c = "\<lparr>NUM_NODES = 3, ID_BITS = 8, BYTE_LEN = 1\<rparr>"
  let ?ring = "[''10'', ''50'', ''90'']"
  let ?u = "''https://example.org''"
  have c: "valid_config ?c" by (simp add: valid_config_def consistent_def)
  have ring: "valid_ring ?ring" by (simp add: valid_ring_def any_hex_def digit_value_def)
  note w = status_200_is_compared [OF c ring, of ?u None "[]" empty_tally]
  from w obtain expected where
    e: "expected \<in> set ?ring"
      "routing_loop ?c ?ring [(?u, Response 200 None)] empty_tally =
         routing_loop ?c ?ring [] (compare_response ?c ?u expected (Response 200 None) empty_tally)"
    by blast
  have z: "zfill (BYTE_LEN ?c * 2) (replace_0x []) = ''00''"
    by (simp add: zfill_empty eval_nat_numeral)
  from e(1) have ne: "zfill (BYTE_LEN ?c * 2) (replace_0x []) \<noteq> expected"
    unfolding z by auto
  have "total_count (compare_response ?c ?u expected (Response 200 None) empty_tally) = 1"
    using w [of expected] by (simp add: empty_tally_def)
  moreover have "match_count (compare_response ?c ?u expected (Response 200 None) empty_tally) = 0"
    using w [of expected] ne by (simp add: empty_tally_def)
  ultimately have "counts_of (routing_loop ?c ?ring [(?u, Response 200 None)] empty_tally) = Inr (0, 1)"
    unfolding e(2) by (simp add: counts_of_def)
  with c ring show ?thesis by (intro conjI)
qed

theorem missing_header_counterexample:
  "total_count (compare_response default_config ''https://httpbin.org/get'' ''030ef2ddc9b1bbf0c6''
      (Response 200 None) empty_tally) = 1
   \<and> printed (compare_response default_config ''https://httpbin.org/get'' ''030ef2ddc9b1bbf0c6''
      (Response 200 None) empty_tally) = [(''https://httpbin.org/get'', MISMATCH)]"
proof -
  have z: "zfill (BYTE_LEN default_config * 2) (replace_0x []) = ''000000000000000000''"
    by (simp add: zfill_empty default_config_def eval_nat_numeral)
  have ne: "''000000000000000000'' \<noteq> ''030ef2ddc9b1bbf0c6''" by simp
  show ?thesis
    unfolding compare_response_200 option.case z using ne by (simp add: empty_tally_def)
qed

end
